theory Spec2Isabelle
  imports Main "HOL-Library.Word" "HOL-Library.Log_Nat"
begin

section \<open>Machine numbers\<close>

text \<open>
  The module \<^verbatim>\<open>fan_control.c\<close> computes with \<^verbatim>\<open>uint32_t\<close>, \<^verbatim>\<open>int32_t\<close>,
  \<^verbatim>\<open>uint8_t\<close> and \<^verbatim>\<open>float\<close>. The integers are words: \<open>+\<close>, \<open>-\<close> and \<open>*\<close> wrap
  around, \<open>div\<close> is the unsigned division, \<open>unat\<close> reads a word as unsigned and \<open>sint\<close>
  as two's complement. An \<^verbatim>\<open>int32_t\<close> is stored as a 32-bit word and read with \<open>sint\<close>
  (the conversion \<^verbatim>\<open>uint32_t\<close> to \<^verbatim>\<open>int32_t\<close> of the compiler keeps the bits, and the
  additions on \<^verbatim>\<open>errorSum\<close> are the two's complement additions of the target).
\<close>

type_synonym u8 = "8 word"
type_synonym u16 = "16 word"
type_synonym u32 = "32 word"

subsection \<open>Binary floating point\<close>

text \<open>
  A finite floating-point number is the rational it denotes. Every operation computes
  the exact rational result and rounds it to the nearest number with \<open>p\<close> significant
  bits, ties to the even significand (\<open>p = 24\<close> for \<^verbatim>\<open>float\<close>, \<open>p = 53\<close> for the
  \<^verbatim>\<open>double\<close> of a literal). \<open>binade x\<close> is the exponent \<open>e\<close> with
  \<open>2 ^ e \<le> \<bar>x\<bar> < 2 ^ (e + 1)\<close>. The exponent range is not limited: the lemma
  \<open>regulator_values_normal\<close> below shows that every value the regulator computes is
  zero or a normal \<^verbatim>\<open>float\<close>, so no infinity, no NaN and no subnormal number arises.
\<close>

definition binade :: "rat \<Rightarrow> int" where
  "binade x =
     (if 1 \<le> \<bar>x\<bar> then bitlen \<lfloor>\<bar>x\<bar>\<rfloor> - 1
      else - bitlen (\<lceil>1 / \<bar>x\<bar>\<rceil> - 1))"

definition round_ties_even :: "rat \<Rightarrow> int" where
  "round_ties_even q =
     (let n = \<lfloor>q\<rfloor>; r = q - of_int n
      in if r < 1 / 2 then n
         else if 1 / 2 < r then n + 1
         else if even n then n else n + 1)"

definition fp_round :: "nat \<Rightarrow> rat \<Rightarrow> rat" where
  "fp_round p x =
     (if x = 0 then 0
      else let u = 2 powi (binade x - (int p - 1))
           in of_int (round_ties_even (x / u)) * u)"

type_synonym f32 = rat

text \<open>
  A value is in the normal range of \<^verbatim>\<open>float\<close> when it is zero or its magnitude lies
  between the smallest normal number \<open>2 ^ -126\<close> and the largest finite number
  \<open>2 ^ 128 - 2 ^ 104\<close>. There the rounding above is the rounding of the machine.
\<close>

definition in_normal_range :: "rat \<Rightarrow> bool" where
  "in_normal_range x \<longleftrightarrow> x = 0 \<or> (2 powi (- 126) \<le> \<bar>x\<bar> \<and> \<bar>x\<bar> \<le> 2 ^ 128 - 2 ^ 104)"

definition f32_of_double_literal :: "rat \<Rightarrow> f32" where
  "f32_of_double_literal x = fp_round 24 (fp_round 53 x)"

definition f32_of_int :: "int \<Rightarrow> f32" where
  "f32_of_int i = fp_round 24 (of_int i)"

definition f32_of_s32 :: "u32 \<Rightarrow> f32" where
  "f32_of_s32 w = f32_of_int (sint w)"

definition f32_of_u32 :: "u32 \<Rightarrow> f32" where
  "f32_of_u32 w = f32_of_int (uint w)"

definition f32_add :: "f32 \<Rightarrow> f32 \<Rightarrow> f32" where
  "f32_add a b = fp_round 24 (a + b)"

definition f32_mul :: "f32 \<Rightarrow> f32 \<Rightarrow> f32" where
  "f32_mul a b = fp_round 24 (a * b)"

text \<open>The conversion of a \<^verbatim>\<open>float\<close> to \<^verbatim>\<open>uint32_t\<close> drops the fraction.\<close>

definition f32_to_u32 :: "f32 \<Rightarrow> u32" where
  "f32_to_u32 x = word_of_int (if 0 \<le> x then \<lfloor>x\<rfloor> else \<lceil>x\<rceil>)"

section \<open>The state of the fan controller\<close>

text \<open>
  The module variables of \<^verbatim>\<open>fan_control.c\<close>, the sample buffer \<^verbatim>\<open>dma_address\<close> of
  \<^verbatim>\<open>potis_dma.c\<close>, and the registers of the two timers the module drives: of TIM2 the
  counter enable bit, the counter and the auto-reload value, of TIM3 the auto-reload
  value, the compare register of channel 2 and the output enable of channel 2.
\<close>

text \<open>The variable \<^verbatim>\<open>output\<close> is the field \<open>output_val\<close>.\<close>

record fan_state =
  fan_control_time_interval :: u32
  fan_start_flag :: u8
  frequency :: u32
  fan_control_actual_RPM :: u32
  targetRPM :: u32
  errorSum :: u32
  fan_control_poti_val :: u32
  Kp :: f32
  Ki :: f32
  output_val :: f32
  dma_address :: "u32 list"
  tim2_cen :: bool
  tim2_cnt :: u32
  tim2_arr :: u32
  tim3_arr :: u32
  tim3_ccr2 :: u32
  tim3_cc2e :: bool

datatype fault = DivisionByZero

definition MAX_PWM :: int where
  "MAX_PWM = 199"

definition MIN_PWM :: int where
  "MIN_PWM = 15"

definition GPIO_PIN_1 :: u16 where
  "GPIO_PIN_1 = 0x0002"

definition POTIS_DMA_1 :: u8 where
  "POTIS_DMA_1 = 1"

definition POTIS_DMA_2 :: u8 where
  "POTIS_DMA_2 = 2"

subsection \<open>The timer interface\<close>

text \<open>
  The module drives its timers through the vendor header \<^verbatim>\<open>stm32f4xx.h\<close>, which is not
  among the sources. The five operations below stand for the calls
  \<^verbatim>\<open>HAL_TIM_Base_Start\<close>, \<^verbatim>\<open>HAL_TIM_Base_Stop\<close>, \<^verbatim>\<open>__HAL_TIM_GET_COUNTER\<close> and
  \<^verbatim>\<open>__HAL_TIM_SET_COUNTER\<close> on TIM2 and \<^verbatim>\<open>__HAL_TIM_SET_COMPARE\<close> on channel 2 of TIM3.
\<close>

text \<open>
  Modelled from the spec: \<open>start()\<close> of the free-running counter (section 6), in the
  source \<^verbatim>\<open>HAL_TIM_Base_Start\<close> of the vendor header: the counter is enabled.
\<close>

definition HAL_TIM_Base_Start :: "fan_state \<Rightarrow> fan_state" where
  "HAL_TIM_Base_Start s = s\<lparr>tim2_cen := True\<rparr>"

text \<open>
  Modelled from the spec: \<open>stop()\<close> of the free-running counter (section 6), in the
  source \<^verbatim>\<open>HAL_TIM_Base_Stop\<close> of the vendor header: the counter is disabled and keeps
  its value.
\<close>

definition HAL_TIM_Base_Stop :: "fan_state \<Rightarrow> fan_state" where
  "HAL_TIM_Base_Stop s = s\<lparr>tim2_cen := False\<rparr>"

text \<open>
  Modelled from the spec: \<open>read() -> ticks\<close> of the free-running counter (section 6),
  in the source the macro \<^verbatim>\<open>__HAL_TIM_GET_COUNTER\<close> of the vendor header.
\<close>

definition HAL_TIM_GET_COUNTER :: "fan_state \<Rightarrow> u32" where
  "HAL_TIM_GET_COUNTER s = tim2_cnt s"

text \<open>
  Modelled from the spec: \<open>reset()\<close> of the free-running counter (section 6), in the
  source the macro \<^verbatim>\<open>__HAL_TIM_SET_COUNTER\<close> of the vendor header, called with 0.
\<close>

definition HAL_TIM_SET_COUNTER :: "fan_state \<Rightarrow> u32 \<Rightarrow> fan_state" where
  "HAL_TIM_SET_COUNTER s v = s\<lparr>tim2_cnt := v\<rparr>"

text \<open>
  Modelled from the spec: the PWM write \<open>setDuty(channel, value)\<close> (sections 4.3 and
  6), which writes the compare value of the channel; in the source the macro
  \<^verbatim>\<open>__HAL_TIM_SET_COMPARE\<close> of the vendor header, an assignment to the compare register.
\<close>

definition HAL_TIM_SET_COMPARE :: "fan_state \<Rightarrow> u32 \<Rightarrow> fan_state" where
  "HAL_TIM_SET_COMPARE s v = s\<lparr>tim3_ccr2 := v\<rparr>"

subsection \<open>The setpoint: \<^verbatim>\<open>potis_dma_get_avg\<close> and \<^verbatim>\<open>fan_control_set_rpm\<close>\<close>

text \<open>
  The loop \<^verbatim>\<open>for (int i = 0; i < 200; i = i + 2) tmp += dma_address[i + k]\<close> with
  \<open>k = 0\<close> for the first channel and \<open>k = 1\<close> for the second.
\<close>

function potis_dma_sum :: "u32 list \<Rightarrow> nat \<Rightarrow> nat \<Rightarrow> u32 \<Rightarrow> u32" where
  "potis_dma_sum buf k i tmp =
     (if i < 200 then potis_dma_sum buf k (i + 2) (tmp + buf ! (i + k)) else tmp)"
  by pat_completeness auto
termination
  by (relation "measure (\<lambda>(buf, k, i, tmp). 200 - i)") auto

definition potis_dma_get_avg :: "u32 list \<Rightarrow> u8 \<Rightarrow> u32" where
  "potis_dma_get_avg buf input =
     (let tmp = 0;
          tmp = (if input = POTIS_DMA_1 then potis_dma_sum buf 0 0 tmp else tmp);
          tmp = (if input = POTIS_DMA_2 then potis_dma_sum buf 1 0 tmp else tmp)
      in tmp div 100)"

definition fan_control_set_rpm :: "fan_state \<Rightarrow> fan_state" where
  "fan_control_set_rpm s =
     (let s1 = s\<lparr>fan_control_poti_val :=
                   potis_dma_get_avg (dma_address s) POTIS_DMA_1 * 4500 div 4095\<rparr>
      in s1\<lparr>targetRPM := fan_control_poti_val s1\<rparr>)"

subsection \<open>The regulator: \<^verbatim>\<open>regulateFanSpeed\<close>\<close>

text \<open>
  The function body in its three blocks. \<open>speed_update\<close> is the assignment to
  \<^verbatim>\<open>fan_control_actual_RPM\<close>; the division by \<^verbatim>\<open>fan_control_time_interval * 2\<close> has no
  result when that product is zero.
\<close>

definition speed_update :: "fan_state \<Rightarrow> fault + fan_state" where
  "speed_update s =
     (if fan_control_time_interval s * 2 = 0 then Inl DivisionByZero
      else Inr (s\<lparr>fan_control_actual_RPM :=
                    frequency s div (fan_control_time_interval s * 2) * 60\<rparr>))"

text \<open>
  \<open>pi_update\<close> is the block from \<^verbatim>\<open>int32_t error = ...\<close> to the assignment of
  \<^verbatim>\<open>output\<close>: it returns the local \<^verbatim>\<open>error\<close> with the state. \<open>sampling_period\<close> is the
  initialiser of \<^verbatim>\<open>Ta\<close>: the quotient of two \<^verbatim>\<open>uint32_t\<close>, converted to \<^verbatim>\<open>float\<close>.
\<close>

definition tick_error :: "fan_state \<Rightarrow> u32" where
  "tick_error s = targetRPM s - fan_control_actual_RPM s"

definition sampling_period :: "fan_state \<Rightarrow> f32" where
  "sampling_period s = f32_of_u32 (fan_control_time_interval s div frequency s)"

definition pi_update :: "fan_state \<Rightarrow> fault + (u32 \<times> fan_state)" where
  "pi_update s =
     (let error = tick_error s
      in if frequency s = 0 then Inl DivisionByZero
         else
           let Ta = sampling_period s;
               s1 = s\<lparr>errorSum := errorSum s + error\<rparr>;
               s2 = s1\<lparr>output_val :=
                        f32_add (f32_mul (Kp s1) (f32_of_s32 error))
                                (f32_mul (f32_mul (Ki s1) (f32_of_s32 (errorSum s1))) Ta)\<rparr>
           in Inr (error, s2))"

text \<open>\<open>saturate\<close> is the \<^verbatim>\<open>if (output > MAX_PWM) ... else if (output < MIN_PWM) ...\<close>.\<close>

definition saturate :: "u32 \<Rightarrow> fan_state \<Rightarrow> fan_state" where
  "saturate error s =
     (if f32_of_int MAX_PWM < output_val s
      then (s\<lparr>output_val := f32_of_int MAX_PWM\<rparr>)\<lparr>errorSum := errorSum s - error\<rparr>
      else if output_val s < f32_of_int MIN_PWM
      then (s\<lparr>output_val := f32_of_int MIN_PWM\<rparr>)\<lparr>errorSum := errorSum s - error\<rparr>
      else s)"

definition regulateFanSpeed :: "fan_state \<Rightarrow> fault + fan_state" where
  "regulateFanSpeed s =
     (case speed_update s of
        Inl f \<Rightarrow> Inl f
      | Inr s1 \<Rightarrow>
          (case pi_update s1 of
             Inl f \<Rightarrow> Inl f
           | Inr (error, s2) \<Rightarrow>
               (let s3 = saturate error s2
                in Inr (HAL_TIM_SET_COMPARE s3 (f32_to_u32 (output_val s3))))))"

text \<open>
  \<open>pre_clamp\<close> is the tick up to the assignment of \<^verbatim>\<open>output\<close>, before the saturation:
  it names the value of \<^verbatim>\<open>output\<close> that the saturation tests, the accumulated
  \<^verbatim>\<open>errorSum\<close> and the local \<^verbatim>\<open>error\<close>. \<open>in_duty_range\<close> says that \<^verbatim>\<open>output\<close> and the
  compare register of the PWM channel hold a duty between \<^verbatim>\<open>MIN_PWM\<close> and \<^verbatim>\<open>MAX_PWM\<close>.
\<close>

definition pre_clamp :: "fan_state \<Rightarrow> fault + (u32 \<times> fan_state)" where
  "pre_clamp s = (case speed_update s of Inl f \<Rightarrow> Inl f | Inr s1 \<Rightarrow> pi_update s1)"

definition in_duty_range :: "fan_state \<Rightarrow> bool" where
  "in_duty_range s \<longleftrightarrow>
     of_int MIN_PWM \<le> output_val s \<and> output_val s \<le> of_int MAX_PWM \<and>
     tim3_ccr2 s = f32_to_u32 (output_val s) \<and>
     15 \<le> unat (tim3_ccr2 s) \<and> unat (tim3_ccr2 s) \<le> 199"

subsection \<open>The capture: \<^verbatim>\<open>HAL_GPIO_EXTI_Callback\<close>\<close>

definition HAL_GPIO_EXTI_Callback :: "u16 \<Rightarrow> fan_state \<Rightarrow> fault + fan_state" where
  "HAL_GPIO_EXTI_Callback GPIO_Pin s =
     (if GPIO_Pin = GPIO_PIN_1 then
        (if fan_start_flag s = 0
         then Inr ((HAL_TIM_Base_Start s)\<lparr>fan_start_flag := 1\<rparr>)
         else
           (let s1 = HAL_TIM_Base_Stop s;
                s2 = s1\<lparr>fan_control_time_interval := HAL_TIM_GET_COUNTER s1\<rparr>
            in case regulateFanSpeed s2 of
                 Inl f \<Rightarrow> Inl f
               | Inr s3 \<Rightarrow> Inr ((HAL_TIM_SET_COUNTER s3 0)\<lparr>fan_start_flag := 0\<rparr>)))
      else Inr s)"

text \<open>
  \<^verbatim>\<open>EXTI1_IRQHandler\<close> runs for a pending rising edge on line 1 and hands
  \<^verbatim>\<open>GPIO_PIN_1\<close> to the callback.
\<close>

definition EXTI1_IRQHandler :: "fan_state \<Rightarrow> fault + fan_state" where
  "EXTI1_IRQHandler s = HAL_GPIO_EXTI_Callback GPIO_PIN_1 s"

subsection \<open>Initialisation: \<^verbatim>\<open>fan_control_init\<close>\<close>

text \<open>
  \<open>startup\<close> holds the initialisers of the module variables and the timers as they are
  before the module configures them. \<^verbatim>\<open>fan_control_timer_2_init\<close> calls
  \<^verbatim>\<open>my_timer_init(TIMER_INSTANCE_2, TIMER_MODE_BASE, 10000, 10000)\<close>, which sets the
  period to \<^verbatim>\<open>period - 1\<close>; \<^verbatim>\<open>fan_control_timer_3_init\<close> sets the period
  \<^verbatim>\<open>f_pwm - 1\<close> with \<^verbatim>\<open>f_pwm = 200\<close>, configures channel 2 with \<^verbatim>\<open>Pulse = 0\<close> and
  starts the PWM. The prescalers, the pins, the display and the converter set up by the
  other calls of \<^verbatim>\<open>fan_control_init\<close> touch nothing of the state above.
\<close>

definition startup :: fan_state where
  "startup =
     \<lparr>fan_control_time_interval = 0, fan_start_flag = 0, frequency = 10000,
      fan_control_actual_RPM = 0, targetRPM = 0, errorSum = 0,
      fan_control_poti_val = 0,
      Kp = f32_of_double_literal (98 / 100), Ki = f32_of_double_literal (21 / 10),
      output_val = f32_of_double_literal 0,
      dma_address = replicate 200 0,
      tim2_cen = False, tim2_cnt = 0, tim2_arr = - 1,
      tim3_arr = 0xFFFF, tim3_ccr2 = 0, tim3_cc2e = False\<rparr>"

definition my_timer_init :: "u32 \<Rightarrow> u32 \<Rightarrow> fan_state \<Rightarrow> fan_state" where
  "my_timer_init prescaler period s = s\<lparr>tim2_arr := period - 1\<rparr>"

definition fan_control_timer_2_init :: "fan_state \<Rightarrow> fan_state" where
  "fan_control_timer_2_init s = my_timer_init 10000 10000 s"

definition fan_control_timer_3_init :: "fan_state \<Rightarrow> fan_state" where
  "fan_control_timer_3_init s =
     (let f_pwm = 200
      in s\<lparr>tim3_arr := f_pwm - 1, tim3_ccr2 := 0, tim3_cc2e := True\<rparr>)"

definition fan_control_init :: fan_state where
  "fan_control_init = fan_control_timer_3_init (fan_control_timer_2_init startup)"

subsection \<open>The running system\<close>

text \<open>
  What happens after \<^verbatim>\<open>fan_control_init\<close>:
  \<^item> \<open>TachoEdge\<close>: a rising edge of the tachometer line runs the interrupt handler;
  \<^item> \<open>Tim2Clock\<close>: a clock tick of TIM2 advances its counter while it is enabled; as
    \<^verbatim>\<open>my_timer.c\<close> describes it, with a period of \<^verbatim>\<open>period - 1\<close> the counter counts
    from 0 to \<^verbatim>\<open>period - 1\<close> and then starts again from 0;
  \<^item> \<open>MainLoop\<close>: the main loop of \<^verbatim>\<open>main.c\<close> calls \<^verbatim>\<open>fan_control_set_rpm\<close>; the
    interrupt handler reads of its two assignments only \<^verbatim>\<open>targetRPM\<close>, so the call is
    one step;
  \<^item> \<open>AdcSample i v\<close>: the converter, set to a resolution of 12 bits in
    \<^verbatim>\<open>potis_dma_init\<close>, stores the sample \<open>v\<close> in a cell of the buffer of 200 words.
\<close>

datatype event = TachoEdge | Tim2Clock | MainLoop | AdcSample nat "12 word"

definition tim2_clock :: "fan_state \<Rightarrow> fan_state" where
  "tim2_clock s =
     (if tim2_cen s
      then s\<lparr>tim2_cnt := (if tim2_cnt s < tim2_arr s then tim2_cnt s + 1 else 0)\<rparr>
      else s)"

fun step :: "fan_state \<Rightarrow> event \<Rightarrow> fault + fan_state" where
  "step s TachoEdge = EXTI1_IRQHandler s"
| "step s Tim2Clock = Inr (tim2_clock s)"
| "step s MainLoop = Inr (fan_control_set_rpm s)"
| "step s (AdcSample i v) = Inr (s\<lparr>dma_address := (dma_address s)[i mod 200 := ucast v]\<rparr>)"

fun exec :: "fan_state \<Rightarrow> event list \<Rightarrow> fault + fan_state" where
  "exec s [] = Inr s"
| "exec s (e # es) = (case step s e of Inl f \<Rightarrow> Inl f | Inr s' \<Rightarrow> exec s' es)"

text \<open>
  \<open>tick_state target interval\<close> is the initialised module at the start of a tick with
  the given setpoint and sampled interval.
\<close>

definition tick_state :: "u32 \<Rightarrow> u32 \<Rightarrow> fan_state" where
  "tick_state target interval =
     fan_control_init\<lparr>targetRPM := target, fan_control_time_interval := interval\<rparr>"

subsection \<open>The invariant of the running system\<close>

text \<open>
  What \<^verbatim>\<open>fan_control_init\<close> establishes and every event keeps: the variables that are
  never assigned hold their initialisers, the counter of TIM2 and the sampled interval
  stay within the period of 10000 ticks, the counter runs exactly while a measurement
  is open and is zero otherwise, the PWM output is enabled, and the samples and the
  setpoint derived from them stay within the range of the 12-bit converter.
\<close>

definition fan_inv :: "fan_state \<Rightarrow> bool" where
  "fan_inv s \<longleftrightarrow>
     frequency s = 10000 \<and> Kp s = Kp startup \<and> Ki s = Ki startup \<and>
     tim2_arr s = 9999 \<and> tim2_cnt s \<le> 9999 \<and> fan_control_time_interval s \<le> 9999 \<and>
     fan_start_flag s \<le> 1 \<and> (tim2_cen s \<longleftrightarrow> fan_start_flag s \<noteq> 0) \<and>
     (fan_start_flag s = 0 \<longrightarrow> tim2_cnt s = 0) \<and>
     tim3_cc2e s \<and> tim3_arr s = 199 \<and>
     length (dma_address s) = 200 \<and> (\<forall>v \<in> set (dma_address s). v \<le> 4095) \<and>
     targetRPM s \<le> 4500"

subsection \<open>The regulator as the specification words it\<close>

text \<open>
  The specification takes the sampling period as the real-valued quotient of the
  interval and the tick frequency. \<open>spec_sampling_period\<close> is that quotient in
  \<^verbatim>\<open>float\<close> arithmetic, and \<open>spec_pi_update\<close> is \<open>pi_update\<close> with it in the place
  of \<open>sampling_period\<close>. Both are for comparison only: nothing of the model of the
  code uses them.
\<close>

definition f32_div :: "f32 \<Rightarrow> f32 \<Rightarrow> f32" where
  "f32_div a b = fp_round 24 (a / b)"

definition spec_sampling_period :: "fan_state \<Rightarrow> f32" where
  "spec_sampling_period s =
     f32_div (f32_of_u32 (fan_control_time_interval s)) (f32_of_u32 (frequency s))"

definition spec_pi_update :: "fan_state \<Rightarrow> fault + (u32 \<times> fan_state)" where
  "spec_pi_update s =
     (let error = tick_error s
      in if frequency s = 0 then Inl DivisionByZero
         else
           let Ta = spec_sampling_period s;
               s1 = s\<lparr>errorSum := errorSum s + error\<rparr>;
               s2 = s1\<lparr>output_val :=
                        f32_add (f32_mul (Kp s1) (f32_of_s32 error))
                                (f32_mul (f32_mul (Ki s1) (f32_of_s32 (errorSum s1))) Ta)\<rparr>
           in Inr (error, s2))"

text \<open>
  \<open>spec_regulateFanSpeed\<close> is the whole tick with that sampling period: the speed
  update, \<open>spec_pi_update\<close>, the saturation and the write of the compare value.
\<close>

definition spec_regulateFanSpeed :: "fan_state \<Rightarrow> fault + fan_state" where
  "spec_regulateFanSpeed s =
     (case speed_update s of
        Inl f \<Rightarrow> Inl f
      | Inr s1 \<Rightarrow>
          (case spec_pi_update s1 of
             Inl f \<Rightarrow> Inl f
           | Inr (error, s2) \<Rightarrow>
               (let s3 = saturate error s2
                in Inr (HAL_TIM_SET_COMPARE s3 (f32_to_u32 (output_val s3))))))"

section \<open>Rounding\<close>

lemma binade_bounds:
  assumes "x \<noteq> 0"
  shows "2 powi binade x \<le> \<bar>x\<bar>" and "\<bar>x\<bar> < 2 powi (binade x + 1)"
proof -
  have "2 powi binade x \<le> \<bar>x\<bar> \<and> \<bar>x\<bar> < 2 powi (binade x + 1)"
  proof (cases "1 \<le> \<bar>x\<bar>")
    case True
    define n where "n = \<lfloor>\<bar>x\<bar>\<rfloor>"
    have n1: "1 \<le> n" using True by (simp add: n_def le_floor_iff)
    then have npos: "0 < n" by simp
    have b: "binade x = bitlen n - 1" using True by (simp add: binade_def n_def)
    have bl: "1 \<le> bitlen n" using npos by (simp add: bitlen_alt_def)
    from bitlen_bounds [OF npos]
    have lo: "2 ^ nat (bitlen n - 1) \<le> n" and hi: "n < 2 ^ nat (bitlen n)" by simp_all
    have "(2::rat) powi binade x = 2 ^ nat (bitlen n - 1)"
      using bl by (simp add: b power_int_nonneg_exp)
    also have "\<dots> = of_int (2 ^ nat (bitlen n - 1))" by simp
    also have "\<dots> \<le> of_int n" using lo by (simp only: of_int_le_iff)
    also have "\<dots> \<le> \<bar>x\<bar>" by (simp add: n_def)
    finally have A: "2 powi binade x \<le> \<bar>x\<bar>" .
    have "\<bar>x\<bar> < of_int (n + 1)" using floor_correct [of "\<bar>x\<bar>"] by (simp add: n_def)
    also have "\<dots> \<le> of_int (2 ^ nat (bitlen n))"
      using hi by (simp only: of_int_le_iff)
    also have "\<dots> = (2::rat) powi (binade x + 1)"
      using bl by (simp add: b power_int_nonneg_exp)
    finally have B: "\<bar>x\<bar> < 2 powi (binade x + 1)" .
    from A B show ?thesis ..
  next
    case False
    define y where "y = 1 / \<bar>x\<bar>"
    define m where "m = \<lceil>y\<rceil> - 1"
    have xpos: "0 < \<bar>x\<bar>" using assms by simp
    have y1: "1 < y" using False xpos by (simp add: y_def)
    have m1: "1 \<le> m" using y1 by (simp add: m_def less_ceiling_iff)
    then have mpos: "0 < m" by simp
    have b: "binade x = - bitlen m" using False by (simp add: binade_def m_def y_def)
    have bl: "1 \<le> bitlen m" using mpos by (simp add: bitlen_alt_def)
    from bitlen_bounds [OF mpos]
    have lo: "2 ^ nat (bitlen m - 1) \<le> m" and hi: "m < 2 ^ nat (bitlen m)" by simp_all
    have "y \<le> of_int (m + 1)" using ceiling_correct [of y] by (simp add: m_def)
    also have "\<dots> \<le> of_int (2 ^ nat (bitlen m))"
      using hi by (simp only: of_int_le_iff)
    also have "\<dots> = (2::rat) ^ nat (bitlen m)" by simp
    finally have "1 / \<bar>x\<bar> \<le> 2 ^ nat (bitlen m)" by (simp add: y_def)
    then have "1 / 2 ^ nat (bitlen m) \<le> \<bar>x\<bar>"
      using xpos by (simp add: field_simps)
    moreover have "(2::rat) powi binade x = 1 / 2 ^ nat (bitlen m)"
      using bl by (simp add: b power_int_minus_divide power_int_nonneg_exp)
    ultimately have A: "2 powi binade x \<le> \<bar>x\<bar>" by simp
    have "of_int (2 ^ nat (bitlen m - 1)) \<le> (of_int m :: rat)"
      using lo by (simp only: of_int_le_iff)
    also have "\<dots> < y" using ceiling_correct [of y] by (simp add: m_def)
    finally have "2 ^ nat (bitlen m - 1) < 1 / \<bar>x\<bar>" by (simp add: y_def)
    then have "\<bar>x\<bar> < 1 / 2 ^ nat (bitlen m - 1)"
      using xpos by (simp add: field_simps)
    moreover have "(2::rat) powi (binade x + 1) = 1 / 2 ^ nat (bitlen m - 1)"
    proof -
      have "binade x + 1 = - (bitlen m - 1)" by (simp add: b)
      then show ?thesis
        using bl by (simp only: power_int_minus_divide) (simp add: power_int_nonneg_exp)
    qed
    ultimately have B: "\<bar>x\<bar> < 2 powi (binade x + 1)" by simp
    from A B show ?thesis ..
  qed
  then show "2 powi binade x \<le> \<bar>x\<bar>" and "\<bar>x\<bar> < 2 powi (binade x + 1)" by simp_all
qed

lemma binade_unique:
  assumes "2 powi e \<le> \<bar>x\<bar>" and "\<bar>x\<bar> < 2 powi (e + 1)"
  shows "binade x = e"
proof -
  have x0: "x \<noteq> 0"
  proof
    assume "x = 0"
    with assms(1) have "(2::rat) powi e \<le> 0" by simp
    moreover have "(0::rat) < 2 powi e" by simp
    ultimately show False by simp
  qed
  note b = binade_bounds [OF x0]
  have "(2::rat) powi e < 2 powi (binade x + 1)" using assms(1) b(2) by simp
  then have 1: "e < binade x + 1"
    using power_int_increasing [of "binade x + 1" e "2::rat"] by (cases "e < binade x + 1") simp_all
  have "(2::rat) powi binade x < 2 powi (e + 1)" using assms(2) b(1) by simp
  then have 2: "binade x < e + 1"
    using power_int_increasing [of "e + 1" "binade x" "2::rat"] by (cases "binade x < e + 1") simp_all
  from 1 2 show ?thesis by simp
qed

lemma round_ties_even_of_int: "round_ties_even (of_int n) = n"
  by (simp add: round_ties_even_def)

lemma round_ties_even_le: "q \<le> of_int N \<Longrightarrow> round_ties_even q \<le> N"
  unfolding round_ties_even_def Let_def
  by (auto simp: floor_le_iff le_floor_iff)

lemma round_ties_even_ge: "of_int N \<le> q \<Longrightarrow> N \<le> round_ties_even q"
  unfolding round_ties_even_def Let_def
  by (auto simp: le_floor_iff) linarith+


lemma fp_round_significand:
  assumes "x \<noteq> 0" and "0 < p"
  defines "M \<equiv> round_ties_even (x / 2 powi (binade x - (int p - 1)))"
  shows "2 ^ (p - 1) \<le> \<bar>M\<bar>" and "\<bar>M\<bar> \<le> 2 ^ p"
proof -
  define u :: rat where "u = 2 powi (binade x - (int p - 1))"
  define q where "q = x / u"
  have upos: "0 < u" by (simp add: u_def)
  have M: "M = round_ties_even q" by (simp add: M_def q_def u_def)
  have lo_eq: "(2::rat) powi binade x = 2 ^ (p - 1) * u"
  proof -
    have "binade x = int (p - 1) + (binade x - (int p - 1))" using assms(2) by simp
    then have "(2::rat) powi binade x = 2 powi (int (p - 1) + (binade x - (int p - 1)))"
      by simp
    also have "\<dots> = 2 powi int (p - 1) * 2 powi (binade x - (int p - 1))"
      by (rule power_int_add) simp
    finally show ?thesis by (simp add: u_def)
  qed
  have hi_eq: "(2::rat) powi (binade x + 1) = 2 ^ p * u"
  proof -
    have "binade x + 1 = int p + (binade x - (int p - 1))" by simp
    then have "(2::rat) powi (binade x + 1) = 2 powi (int p + (binade x - (int p - 1)))"
      by simp
    also have "\<dots> = 2 powi int p * 2 powi (binade x - (int p - 1))"
      by (rule power_int_add) simp
    finally show ?thesis by (simp add: u_def)
  qed
  have aq: "\<bar>q\<bar> = \<bar>x\<bar> / u" using upos by (simp add: q_def)
  have "2 ^ (p - 1) * u \<le> \<bar>x\<bar>"
    using binade_bounds(1) [OF assms(1)] by (simp only: lo_eq)
  then have qlo: "2 ^ (p - 1) \<le> \<bar>q\<bar>"
    using upos by (simp add: aq field_simps)
  have "\<bar>x\<bar> < 2 ^ p * u"
    using binade_bounds(2) [OF assms(1)] by (simp only: hi_eq)
  then have qhi: "\<bar>q\<bar> \<le> 2 ^ p"
    using upos by (simp add: aq field_simps)
  have "2 ^ (p - 1) \<le> \<bar>M\<bar> \<and> \<bar>M\<bar> \<le> 2 ^ p"
  proof (cases "0 \<le> q")
    case True
    have "of_int (2 ^ (p - 1)) \<le> q" using qlo True by simp
    then have 1: "2 ^ (p - 1) \<le> M" unfolding M by (rule round_ties_even_ge)
    have "q \<le> of_int (2 ^ p)" using qhi True by simp
    then have 2: "M \<le> 2 ^ p" unfolding M by (rule round_ties_even_le)
    have "(0::int) \<le> 2 ^ (p - 1)" by simp
    with 1 have "0 \<le> M" by linarith
    with 1 2 show ?thesis by simp
  next
    case False
    have "q \<le> of_int (- (2 ^ (p - 1)))" using qlo False by simp
    then have 1: "M \<le> - (2 ^ (p - 1))" unfolding M by (rule round_ties_even_le)
    have "of_int (- (2 ^ p)) \<le> q" using qhi False by simp
    then have 2: "- (2 ^ p) \<le> M" unfolding M by (rule round_ties_even_ge)
    have "(0::int) \<le> 2 ^ (p - 1)" by simp
    with 1 have "M \<le> 0" by linarith
    with 1 2 show ?thesis by simp
  qed
  then show "2 ^ (p - 1) \<le> \<bar>M\<bar>" and "\<bar>M\<bar> \<le> 2 ^ p" by simp_all
qed

lemma fp_round_representable:
  assumes "\<bar>m\<bar> < 2 ^ p"
  shows "fp_round p (of_int m * 2 powi k) = of_int m * 2 powi k"
proof (cases "m = 0")
  case True
  then show ?thesis by (simp add: fp_round_def)
next
  case False
  define x :: rat where "x = of_int m * 2 powi k"
  have x0: "x \<noteq> 0" using False by (simp add: x_def)
  define d where "d = k - (binade x - (int p - 1))"
  have ax: "\<bar>x\<bar> = of_int \<bar>m\<bar> * 2 powi k" by (simp add: x_def abs_mult)
  have "of_int \<bar>m\<bar> < (of_int (2 ^ p) :: rat)" using assms by (simp only: of_int_less_iff)
  then have "\<bar>x\<bar> < 2 ^ p * 2 powi k" by (simp add: ax)
  also have "\<dots> = 2 powi (int p + k)" by (simp add: power_int_add)
  finally have "(2::rat) powi binade x < 2 powi (int p + k)"
    using binade_bounds(1) [OF x0] by simp
  then have "binade x < int p + k"
    using power_int_increasing [of "int p + k" "binade x" "2::rat"]
    by (cases "binade x < int p + k") simp_all
  then have d0: "0 \<le> d" by (simp add: d_def)
  have "x / 2 powi (binade x - (int p - 1)) = of_int m * 2 powi d"
    by (simp add: x_def d_def power_int_diff)
  also have "\<dots> = of_int (m * 2 ^ nat d)" using d0 by (simp add: power_int_nonneg_exp)
  finally have q: "x / 2 powi (binade x - (int p - 1)) = of_int (m * 2 ^ nat d)" .
  have "fp_round p x = of_int (m * 2 ^ nat d) * 2 powi (binade x - (int p - 1))"
    using x0 by (simp only: fp_round_def Let_def q round_ties_even_of_int if_False)
  also have "\<dots> = of_int m * (2 powi d * 2 powi (binade x - (int p - 1)))"
    using d0 by (simp add: power_int_nonneg_exp)
  also have "2 powi d * 2 powi (binade x - (int p - 1)) = (2::rat) powi k"
    by (simp add: d_def flip: power_int_add)
  finally show ?thesis by (simp add: x_def)
qed

lemma fp_round_form:
  assumes "0 < p"
  shows "\<exists>m k. fp_round p x = of_int m * 2 powi k \<and> \<bar>m\<bar> < 2 ^ p"
proof (cases "x = 0")
  case True
  have "fp_round p x = of_int 0 * 2 powi 0 \<and> \<bar>0::int\<bar> < 2 ^ p"
    using True by (simp add: fp_round_def)
  then show ?thesis by blast
next
  case False
  define k where "k = binade x - (int p - 1)"
  define M where "M = round_ties_even (x / 2 powi k)"
  have r: "fp_round p x = of_int M * 2 powi k"
    using False by (simp add: fp_round_def M_def k_def Let_def)
  from fp_round_significand [OF False assms]
  have Mhi: "\<bar>M\<bar> \<le> 2 ^ p" by (simp add: M_def k_def)
  show ?thesis
  proof (cases "\<bar>M\<bar> < 2 ^ p")
    case True
    with r show ?thesis by blast
  next
    case False
    with Mhi have Meq: "\<bar>M\<bar> = 2 ^ p" by simp
    have M': "M = sgn M * 2 ^ p" using sgn_mult_abs [of M] Meq by simp
    have "fp_round p x = of_int (sgn M) * (2 ^ p * 2 powi k)"
      by (subst r, subst M') simp
    also have "(2::rat) ^ p * 2 powi k = 2 powi (int p + k)" by (simp add: power_int_add)
    finally have 1: "fp_round p x = of_int (sgn M) * 2 powi (int p + k)" .
    have "\<bar>sgn M\<bar> \<le> 1" by (simp add: abs_sgn_eq)
    moreover have "(1::int) < 2 ^ p" using assms by (simp add: one_less_power)
    ultimately have 2: "\<bar>sgn M\<bar> < 2 ^ p" by linarith
    from 1 2 show ?thesis by blast
  qed
qed

lemma fp_round_idem:
  assumes "0 < p"
  shows "fp_round p (fp_round p x) = fp_round p x"
proof -
  from fp_round_form [OF assms, of x]
  obtain m k where "fp_round p x = of_int m * 2 powi k" and "\<bar>m\<bar> < 2 ^ p" by blast
  then show ?thesis by (simp add: fp_round_representable)
qed

lemma fp_round_abs_le:
  assumes "0 < p" and "\<bar>x\<bar> \<le> 2 powi K"
  shows "\<bar>fp_round p x\<bar> \<le> 2 powi K"
proof (cases "x = 0")
  case True
  then show ?thesis by (simp add: fp_round_def)
next
  case False
  show ?thesis
  proof (cases "\<bar>x\<bar> = 2 powi K")
    case True
    have "(1::int) < 2 ^ p" using assms(1) by (simp add: one_less_power)
    then have s: "\<bar>sgn x'\<bar> < 2 ^ p" for x' :: int
      using abs_sgn_eq [of x'] by (simp split: if_splits)
    have "x = of_int (if 0 < x then 1 else - 1) * 2 powi K"
      using True False by (auto simp: abs_if split: if_splits)
    moreover have "\<bar>if 0 < x then 1 else - 1 :: int\<bar> < 2 ^ p"
      using \<open>(1::int) < 2 ^ p\<close> by simp
    ultimately have "fp_round p x = x"
      using fp_round_representable [of "if 0 < x then 1 else - 1" p K] by simp
    then show ?thesis using assms(2) by simp
  next
    case ne: False
    with assms(2) have lt: "\<bar>x\<bar> < 2 powi K" by simp
    have "(2::rat) powi binade x < 2 powi K"
      using binade_bounds(1) [OF False] lt by simp
    then have "binade x < K"
      using power_int_increasing [of K "binade x" "2::rat"]
      by (cases "binade x < K") simp_all
    then have le: "(2::rat) powi (binade x + 1) \<le> 2 powi K"
      by (intro power_int_increasing) simp_all
    define k where "k = binade x - (int p - 1)"
    define M where "M = round_ties_even (x / 2 powi k)"
    have r: "fp_round p x = of_int M * 2 powi k"
      using False by (simp add: fp_round_def M_def k_def Let_def)
    from fp_round_significand [OF False assms(1)]
    have Mhi: "\<bar>M\<bar> \<le> 2 ^ p" by (simp add: M_def k_def)
    then have "(of_int \<bar>M\<bar> :: rat) \<le> of_int (2 ^ p)" by (simp only: of_int_le_iff)
    then have "\<bar>fp_round p x\<bar> \<le> 2 ^ p * 2 powi k"
      by (simp add: r abs_mult)
    also have "\<dots> = 2 powi (binade x + 1)"
      by (simp add: k_def flip: power_int_add) (simp add: power_int_add power_int_diff)
    finally show ?thesis using le by simp
  qed
qed

lemma powi_le_binade:
  assumes "2 powi K \<le> \<bar>x\<bar>"
  shows "K \<le> binade x"
proof -
  have x0: "x \<noteq> 0"
  proof
    assume "x = 0"
    with assms have "(2::rat) powi K \<le> 0" by simp
    moreover have "(0::rat) < 2 powi K" by simp
    ultimately show False by simp
  qed
  have "(2::rat) powi K < 2 powi (binade x + 1)"
    using assms binade_bounds(2) [OF x0] by simp
  then have "K < binade x + 1"
    using power_int_increasing [of "binade x + 1" K "2::rat"]
    by (cases "K < binade x + 1") simp_all
  then show ?thesis by simp
qed

lemma fp_round_abs_ge:
  assumes "0 < p" and "2 powi K \<le> \<bar>x\<bar>"
  shows "2 powi K \<le> \<bar>fp_round p x\<bar>"
proof -
  have x0: "x \<noteq> 0" using assms(2) powi_le_binade binade_bounds
    by (metis abs_zero not_le zero_less_numeral zero_less_power_int)
  define k where "k = binade x - (int p - 1)"
  define M where "M = round_ties_even (x / 2 powi k)"
  have r: "fp_round p x = of_int M * 2 powi k"
    using x0 by (simp add: fp_round_def M_def k_def Let_def)
  from fp_round_significand [OF x0 assms(1)]
  have Mlo: "2 ^ (p - 1) \<le> \<bar>M\<bar>" by (simp add: M_def k_def)
  then have "(of_int (2 ^ (p - 1)) :: rat) \<le> of_int \<bar>M\<bar>" by (simp only: of_int_le_iff)
  then have "2 ^ (p - 1) * 2 powi k \<le> \<bar>fp_round p x\<bar>"
    by (simp add: r abs_mult)
  moreover have "(2::rat) ^ (p - 1) * 2 powi k = 2 powi binade x"
  proof -
    have "(2::rat) powi (int (p - 1) + k) = 2 powi int (p - 1) * 2 powi k"
      by (rule power_int_add) simp
    then have "(2::rat) ^ (p - 1) * 2 powi k = 2 powi (int (p - 1) + k)"
      by simp
    moreover have "int (p - 1) + k = binade x" using assms(1) by (simp add: k_def)
    ultimately show ?thesis by simp
  qed
  moreover have "(2::rat) powi K \<le> 2 powi binade x"
    using powi_le_binade [OF assms(2)] by (intro power_int_increasing) simp_all
  ultimately show ?thesis by simp
qed

lemma grid_coarsen:
  assumes "x = of_int n * 2 powi k" and "j \<le> k"
  shows "\<exists>m. x = of_int m * (2::rat) powi j"
proof -
  have "(2::rat) powi k = 2 powi (k - j) * 2 powi j" by (simp flip: power_int_add)
  also have "(2::rat) powi (k - j) = of_int (2 ^ nat (k - j))"
    using assms(2) by (simp add: power_int_nonneg_exp)
  finally have "x = of_int (n * 2 ^ nat (k - j)) * 2 powi j"
    by (simp add: assms(1))
  then show ?thesis by blast
qed

lemma fp_round_grid:
  assumes "0 < p" and "2 powi K \<le> \<bar>x\<bar>"
  shows "\<exists>n. fp_round p x = of_int n * 2 powi (K - (int p - 1))"
proof -
  have x0: "x \<noteq> 0" using assms(2)
    by (metis abs_zero not_le zero_less_numeral zero_less_power_int)
  have "fp_round p x =
      of_int (round_ties_even (x / 2 powi (binade x - (int p - 1)))) *
      2 powi (binade x - (int p - 1))"
    using x0 by (simp add: fp_round_def Let_def)
  moreover have "K - (int p - 1) \<le> binade x - (int p - 1)"
    using powi_le_binade [OF assms(2)] by simp
  ultimately show ?thesis by (rule grid_coarsen)
qed

lemma grid_nonzero_ge:
  assumes "x = of_int n * 2 powi k" and "x \<noteq> 0"
  shows "(2::rat) powi k \<le> \<bar>x\<bar>"
proof -
  have "n \<noteq> 0" using assms by auto
  then have "1 \<le> \<bar>n\<bar>" by simp
  then have "(of_int 1 :: rat) \<le> of_int \<bar>n\<bar>" by (simp only: of_int_le_iff)
  then have "1 * (2::rat) powi k \<le> \<bar>of_int n\<bar> * 2 powi k"
    by (intro mult_right_mono) simp_all
  then show ?thesis by (simp add: assms(1) abs_mult)
qed

section \<open>The setpoint\<close>

lemma Kp_startup: "Kp startup = 2055209 / 2097152"
  unfolding startup_def f32_of_double_literal_def by (simp, code_simp)

lemma Ki_startup: "Ki startup = 4404019 / 2097152"
  unfolding startup_def f32_of_double_literal_def by (simp, code_simp)

lemma gains_startup: "\<bar>Kp startup\<bar> \<le> 1 \<and> \<bar>Ki startup\<bar> \<le> 4"
  by (simp add: Kp_startup Ki_startup)

lemma potis_dma_sum_bound:
  "\<forall>j < 200. buf ! j \<le> 4095 \<Longrightarrow> k \<le> 1 \<Longrightarrow> i \<le> 200 \<Longrightarrow> even i \<Longrightarrow>
   unat tmp \<le> 4095 * (i div 2) \<Longrightarrow> unat (potis_dma_sum buf k i tmp) \<le> 4095 * 100"
proof (induction buf k i tmp rule: potis_dma_sum.induct)
  case (1 buf k i tmp)
  show ?case
  proof (cases "i < 200")
    case True
    have i198: "i + 2 \<le> 200" using True "1.prems"(4) by presburger
    then have "i + k < 200" using "1.prems"(2) by simp
    then have "buf ! (i + k) \<le> 4095" using "1.prems"(1) by blast
    then have b: "unat (buf ! (i + k)) \<le> 4095" by (simp add: word_le_nat_alt)
    have "unat (tmp + buf ! (i + k)) \<le> unat tmp + unat (buf ! (i + k))"
      by (simp add: unat_word_ariths)
    also have "\<dots> \<le> 4095 * (i div 2) + 4095" using b "1.prems"(5) by simp
    also have "\<dots> = 4095 * ((i + 2) div 2)" by simp
    finally have t: "unat (tmp + buf ! (i + k)) \<le> 4095 * ((i + 2) div 2)" .
    have "unat (potis_dma_sum buf k (i + 2) (tmp + buf ! (i + k))) \<le> 4095 * 100"
      using "1.IH" [OF True "1.prems"(1) "1.prems"(2) i198 _ t] "1.prems"(4) by simp
    then show ?thesis using True by (subst potis_dma_sum.simps) simp
  next
    case False
    with "1.prems" show ?thesis by (subst potis_dma_sum.simps) simp
  qed
qed

lemma potis_dma_get_avg_bound:
  assumes "\<forall>j < 200. buf ! j \<le> 4095"
  shows "potis_dma_get_avg buf POTIS_DMA_1 \<le> 4095"
proof -
  have "unat (potis_dma_sum buf 0 0 0) \<le> 4095 * 100"
    using assms by (intro potis_dma_sum_bound) simp_all
  then have "unat (potis_dma_sum buf 0 0 0 div 100) \<le> 4095"
    by (simp add: unat_div)
  then show ?thesis
    by (simp add: potis_dma_get_avg_def POTIS_DMA_1_def POTIS_DMA_2_def word_le_nat_alt)
qed

lemma setpoint_scale:
  fixes a :: u32
  assumes "a \<le> 4095"
  shows "unat a * 4500 < 2 ^ 32"
    and "unat (a * 4500 div 4095) = unat a * 4500 div 4095"
    and "a * 4500 div 4095 \<le> 4500"
proof -
  have a: "unat a \<le> 4095" using assms by (simp add: word_le_nat_alt)
  then show no: "unat a * 4500 < 2 ^ 32" by simp
  have m: "unat (a * 4500) = unat a * 4500"
    using no by (simp add: unat_word_ariths)
  show d: "unat (a * 4500 div 4095) = unat a * 4500 div 4095"
    by (simp add: unat_div m)
  have "unat a * 4500 div 4095 \<le> 4500" using a by simp
  then show "a * 4500 div 4095 \<le> 4500"
    by (simp add: word_le_nat_alt d)
qed

text \<open>
  Claim C10. For every potentiometer average \<open>a\<close> with \<open>0 \<le> a \<le> 4095\<close>,
  \<^verbatim>\<open>fan_control_set_rpm\<close> sets \<^verbatim>\<open>targetRPM\<close> to \<open>(a * 4500) / 4095\<close> in exact unsigned
  arithmetic: the product stays below \<open>2 ^ 32\<close>, so nothing wraps, and the target is
  at most 4500 after the call. The average is what \<^verbatim>\<open>potis_dma_get_avg(POTIS_DMA_1)\<close>
  returns on the buffer of the state.
\<close>

theorem fan_control_set_rpm_scaled:
  assumes "potis_dma_get_avg (dma_address s) POTIS_DMA_1 \<le> 4095"
  shows "unat (potis_dma_get_avg (dma_address s) POTIS_DMA_1) * 4500 < 2 ^ 32 \<and>
         unat (targetRPM (fan_control_set_rpm s)) =
           unat (potis_dma_get_avg (dma_address s) POTIS_DMA_1) * 4500 div 4095 \<and>
         targetRPM (fan_control_set_rpm s) \<le> 4500 \<and>
         fan_control_poti_val (fan_control_set_rpm s) = targetRPM (fan_control_set_rpm s)"
proof -
  define a where "a = potis_dma_get_avg (dma_address s) POTIS_DMA_1"
  have le: "a \<le> 4095" using assms by (simp add: a_def)
  have p: "fan_control_poti_val (fan_control_set_rpm s) = a * 4500 div 4095"
    and t: "targetRPM (fan_control_set_rpm s) = a * 4500 div 4095"
    by (simp_all add: fan_control_set_rpm_def a_def Let_def)
  from setpoint_scale [OF le] show ?thesis
    unfolding a_def [symmetric] p t by simp
qed

theorem fan_control_set_rpm_scaled_witness:
  "potis_dma_get_avg (dma_address (startup\<lparr>dma_address := replicate 200 4095\<rparr>)) POTIS_DMA_1
     = 4095 \<and>
   targetRPM (fan_control_set_rpm (startup\<lparr>dma_address := replicate 200 4095\<rparr>)) = 4500"
proof -
  have h: "potis_dma_get_avg (dma_address (startup\<lparr>dma_address := replicate 200 4095\<rparr>))
             POTIS_DMA_1 \<le> 4095"
    by (simp add: potis_dma_get_avg_def POTIS_DMA_1_def POTIS_DMA_2_def)
  show ?thesis
    using fan_control_set_rpm_scaled [OF h]
    by (simp add: fan_control_set_rpm_def potis_dma_get_avg_def POTIS_DMA_1_def POTIS_DMA_2_def)
qed

section \<open>The regulation tick\<close>

lemma f32_of_int_0: "f32_of_int 0 = 0"
  by (simp add: f32_of_int_def fp_round_def)

lemma f32_of_int_MAX_PWM: "f32_of_int MAX_PWM = 199"
  unfolding f32_of_int_def MAX_PWM_def by code_simp

lemma f32_of_int_MIN_PWM: "f32_of_int MIN_PWM = 15"
  unfolding f32_of_int_def MIN_PWM_def by code_simp

lemma f32_add_0: "f32_add (fp_round 24 x) 0 = fp_round 24 x"
  by (simp add: f32_add_def fp_round_idem)

lemma f32_mul_0: "f32_mul x 0 = 0"
  by (simp add: f32_mul_def fp_round_def)

lemma double_nonzero:
  fixes w :: u32
  assumes "w \<noteq> 0" and "w < 2 ^ 31"
  shows "w * 2 \<noteq> 0" and "unat (w * 2) = unat w * 2"
proof -
  have "unat w < 2 ^ 31" using assms(2) by (simp add: word_less_nat_alt)
  then have "unat w * 2 < 2 ^ 32" by simp
  then show u: "unat (w * 2) = unat w * 2" by (simp add: unat_word_ariths)
  have "unat w \<noteq> 0" using assms(1) by (simp add: unat_eq_0)
  then have "unat (w * 2) \<noteq> 0" by (simp add: u)
  then show "w * 2 \<noteq> 0" by (simp add: unat_eq_0)
qed

lemma word_div_less_zero:
  fixes w f :: u32
  assumes "w < f"
  shows "w div f = 0"
proof -
  have "unat w < unat f" using assms by (simp add: word_less_nat_alt)
  then have "unat (w div f) = 0" by (simp add: unat_div)
  then show ?thesis by (simp add: unat_eq_0)
qed

lemma saturate_range:
  "f32_of_int MIN_PWM \<le> output_val (saturate e s) \<and>
   output_val (saturate e s) \<le> f32_of_int MAX_PWM"
  by (simp add: saturate_def f32_of_int_MAX_PWM f32_of_int_MIN_PWM)


lemma f32_to_u32_range:
  assumes "15 \<le> x" and "x \<le> 199"
  shows "15 \<le> unat (f32_to_u32 x) \<and> unat (f32_to_u32 x) \<le> 199"
proof -
  have lo: "15 \<le> \<lfloor>x\<rfloor>" using assms(1) by (simp add: le_floor_iff)
  have hi: "\<lfloor>x\<rfloor> \<le> 199" using assms(2) by (simp add: floor_le_iff)
  have "uint (word_of_int \<lfloor>x\<rfloor> :: u32) = \<lfloor>x\<rfloor>"
    using lo hi by (simp add: uint_word_of_int take_bit_int_eq_self)
  then have "unat (word_of_int \<lfloor>x\<rfloor> :: u32) = nat \<lfloor>x\<rfloor>"
    by (simp add: unat_eq_nat_uint)
  moreover have "0 \<le> x" using assms(1) by simp
  moreover have "15 \<le> nat \<lfloor>x\<rfloor> \<and> nat \<lfloor>x\<rfloor> \<le> 199" using lo hi by linarith
  ultimately show ?thesis by (simp add: f32_to_u32_def)
qed

lemma regulateFanSpeed_Inr:
  assumes "fan_control_time_interval s * 2 \<noteq> 0" and "frequency s \<noteq> 0"
  shows "\<exists>s1 e s2.
           speed_update s = Inr s1 \<and> pi_update s1 = Inr (e, s2) \<and>
           regulateFanSpeed s =
             Inr (HAL_TIM_SET_COMPARE (saturate e s2) (f32_to_u32 (output_val (saturate e s2))))"
  using assms by (simp add: regulateFanSpeed_def speed_update_def pi_update_def Let_def)

lemma pre_clamp_Inr:
  assumes "fan_control_time_interval s * 2 \<noteq> 0" and "frequency s \<noteq> 0"
  shows "\<exists>error s2.
           pre_clamp s = Inr (error, s2) \<and>
           fan_control_actual_RPM s2 =
             frequency s div (fan_control_time_interval s * 2) * 60 \<and>
           error = targetRPM s - fan_control_actual_RPM s2 \<and>
           errorSum s2 = errorSum s + error \<and>
           output_val s2 =
             f32_add (f32_mul (Kp s) (f32_of_s32 error))
                     (f32_mul (f32_mul (Ki s) (f32_of_s32 (errorSum s2)))
                        (f32_of_u32 (fan_control_time_interval s div frequency s))) \<and>
           regulateFanSpeed s =
             Inr (HAL_TIM_SET_COMPARE (saturate error s2)
                    (f32_to_u32 (output_val (saturate error s2))))"
  using assms
  by (simp add: pre_clamp_def regulateFanSpeed_def speed_update_def pi_update_def
      tick_error_def sampling_period_def Let_def)

lemma regulateFanSpeed_frame:
  assumes "regulateFanSpeed s = Inr s'"
  shows "frequency s' = frequency s \<and> Kp s' = Kp s \<and> Ki s' = Ki s \<and>
         tim2_arr s' = tim2_arr s \<and> tim2_cnt s' = tim2_cnt s \<and>
         fan_control_time_interval s' = fan_control_time_interval s \<and>
         tim2_cen s' = tim2_cen s \<and> fan_start_flag s' = fan_start_flag s \<and>
         tim3_cc2e s' = tim3_cc2e s \<and> tim3_arr s' = tim3_arr s \<and>
         dma_address s' = dma_address s \<and> targetRPM s' = targetRPM s \<and>
         fan_control_poti_val s' = fan_control_poti_val s"
  using assms
  by (auto simp: regulateFanSpeed_def speed_update_def pi_update_def saturate_def
      HAL_TIM_SET_COMPARE_def Let_def split: sum.splits if_splits)

lemma regulateFanSpeed_in_duty_range:
  assumes "regulateFanSpeed s = Inr s'"
  shows "in_duty_range s'"
proof -
  from assms obtain e s2 where
    s': "s' = HAL_TIM_SET_COMPARE (saturate e s2) (f32_to_u32 (output_val (saturate e s2)))"
    by (auto simp: regulateFanSpeed_def Let_def split: sum.splits)
  define x where "x = output_val (saturate e s2)"
  have x: "15 \<le> x" "x \<le> 199"
    using saturate_range [of e s2]
    by (simp_all add: x_def f32_of_int_MAX_PWM f32_of_int_MIN_PWM)
  have o: "output_val s' = x" and c: "tim3_ccr2 s' = f32_to_u32 x"
    by (simp_all add: s' HAL_TIM_SET_COMPARE_def x_def)
  show ?thesis
    using x f32_to_u32_range [OF x]
    by (simp add: in_duty_range_def o c MIN_PWM_def MAX_PWM_def)
qed

lemma tick_state_fields:
  "fan_control_time_interval (tick_state t i) = i" "frequency (tick_state t i) = 10000"
  "targetRPM (tick_state t i) = t" "errorSum (tick_state t i) = 0"
  by (simp_all add: tick_state_def fan_control_init_def fan_control_timer_3_init_def
      fan_control_timer_2_init_def my_timer_init_def startup_def)

text \<open>
  The values of the regulator are normal numbers of \<^verbatim>\<open>float\<close>. With the gains of the
  initialised module, every converted integer, every product and the sum that
  \<^verbatim>\<open>regulateFanSpeed\<close> computes is zero or has a magnitude between \<open>2 ^ -24\<close> and
  \<open>2 ^ 66\<close>: the products of a gain with an integer are multiples of \<open>2 ^ -24\<close>, and
  so is their sum.
\<close>

lemma abs_mult_le_powi:
  fixes a b :: rat
  assumes "\<bar>a\<bar> \<le> 2 powi i" and "\<bar>b\<bar> \<le> 2 powi j"
  shows "\<bar>a * b\<bar> \<le> 2 powi (i + j)"
proof -
  have "\<bar>a * b\<bar> = \<bar>a\<bar> * \<bar>b\<bar>" by (rule abs_mult)
  also have "\<dots> \<le> 2 powi i * 2 powi j"
    using assms by (intro mult_mono) simp_all
  also have "\<dots> = 2 powi (i + j)" by (simp add: power_int_add)
  finally show ?thesis .
qed

lemma of_int_abs_le_powi:
  assumes "\<bar>i\<bar> \<le> 2 ^ k"
  shows "\<bar>of_int i :: rat\<bar> \<le> 2 powi int k"
proof -
  have "(of_int \<bar>i\<bar> :: rat) \<le> of_int (2 ^ k)" using assms by (simp only: of_int_le_iff)
  then show ?thesis by simp
qed

lemma f32_of_s32_magnitude: "\<bar>f32_of_s32 w\<bar> \<le> 2 powi 31"
proof -
  have "- (2 ^ 31) \<le> sint w" "sint w < 2 ^ 31"
    using sint_ge [of w] sint_lt [of w] by simp_all
  then have "\<bar>sint w\<bar> \<le> 2 ^ 31" by linarith
  then have "\<bar>of_int (sint w) :: rat\<bar> \<le> 2 powi int 31" by (rule of_int_abs_le_powi)
  then have "\<bar>fp_round 24 (of_int (sint w))\<bar> \<le> 2 powi int 31"
    by (intro fp_round_abs_le) simp_all
  then show ?thesis by (simp add: f32_of_s32_def f32_of_int_def)
qed

lemma f32_of_u32_magnitude: "\<bar>f32_of_u32 w\<bar> \<le> 2 powi 32"
proof -
  have "0 \<le> uint w" "uint w < 2 ^ 32"
    using uint_lt2p [of w] by simp_all
  then have "\<bar>uint w\<bar> \<le> 2 ^ 32" by linarith
  then have "\<bar>of_int (uint w) :: rat\<bar> \<le> 2 powi int 32" by (rule of_int_abs_le_powi)
  then have "\<bar>fp_round 24 (of_int (uint w))\<bar> \<le> 2 powi int 32"
    by (intro fp_round_abs_le) simp_all
  then show ?thesis by (simp add: f32_of_u32_def f32_of_int_def)
qed

lemma pi_update_magnitude:
  assumes "\<bar>Kp s\<bar> \<le> 1" and "\<bar>Ki s\<bar> \<le> 4" and "pre_clamp s = Inr (error, s2)"
  shows "\<bar>output_val s2\<bar> \<le> 2 powi 66" and "(2::rat) powi 66 < 2 ^ 128 - 2 ^ 104"
proof -
  have o: "output_val s2 =
             f32_add (f32_mul (Kp s) (f32_of_s32 error))
                     (f32_mul (f32_mul (Ki s) (f32_of_s32 (errorSum s2)))
                        (f32_of_u32 (fan_control_time_interval s div frequency s)))"
    using assms(3)
    by (auto simp: pre_clamp_def speed_update_def pi_update_def sampling_period_def Let_def
        split: if_splits)
  have kp: "\<bar>Kp s\<bar> \<le> 2 powi 0" using assms(1) by simp
  have ki: "\<bar>Ki s\<bar> \<le> 2 powi 2" using assms(2) by simp
  have "\<bar>Kp s * f32_of_s32 error\<bar> \<le> 2 powi (0 + 31)"
    using kp f32_of_s32_magnitude by (rule abs_mult_le_powi)
  then have p: "\<bar>f32_mul (Kp s) (f32_of_s32 error)\<bar> \<le> 2 powi 31"
    unfolding f32_mul_def by (intro fp_round_abs_le) simp_all
  have "\<bar>Ki s * f32_of_s32 (errorSum s2)\<bar> \<le> 2 powi (2 + 31)"
    using ki f32_of_s32_magnitude by (rule abs_mult_le_powi)
  then have i1: "\<bar>f32_mul (Ki s) (f32_of_s32 (errorSum s2))\<bar> \<le> 2 powi 33"
    unfolding f32_mul_def by (intro fp_round_abs_le) simp_all
  have "\<bar>f32_mul (Ki s) (f32_of_s32 (errorSum s2)) *
          f32_of_u32 (fan_control_time_interval s div frequency s)\<bar> \<le> 2 powi (33 + 32)"
    using i1 f32_of_u32_magnitude by (rule abs_mult_le_powi)
  then have i2: "\<bar>f32_mul (f32_mul (Ki s) (f32_of_s32 (errorSum s2)))
                     (f32_of_u32 (fan_control_time_interval s div frequency s))\<bar> \<le> 2 powi 65"
    unfolding f32_mul_def [of "f32_mul (Ki s) (f32_of_s32 (errorSum s2))"]
    by (intro fp_round_abs_le) simp_all
  have "\<bar>f32_mul (Kp s) (f32_of_s32 error) +
          f32_mul (f32_mul (Ki s) (f32_of_s32 (errorSum s2)))
            (f32_of_u32 (fan_control_time_interval s div frequency s))\<bar>
        \<le> 2 powi 31 + 2 powi 65"
    using p i2 by (intro order_trans [OF abs_triangle_ineq] add_mono)
  also have "\<dots> \<le> (2::rat) powi 66" by simp
  finally show "\<bar>output_val s2\<bar> \<le> 2 powi 66"
    unfolding o f32_add_def by (intro fp_round_abs_le) simp_all
  show "(2::rat) powi 66 < 2 ^ 128 - 2 ^ 104" by simp
qed

lemma f32_of_int_ge_1:
  assumes "i \<noteq> 0"
  shows "2 powi 0 \<le> \<bar>f32_of_int i\<bar>"
proof -
  have "1 \<le> \<bar>i\<bar>" using assms by simp
  then have "(of_int 1 :: rat) \<le> of_int \<bar>i\<bar>" by (simp only: of_int_le_iff)
  then have "(2::rat) powi 0 \<le> \<bar>of_int i\<bar>" by simp
  then show ?thesis unfolding f32_of_int_def by (intro fp_round_abs_ge) simp_all
qed

lemma f32_of_int_zero_or_ge_1: "f32_of_int i = 0 \<or> 1 \<le> \<bar>f32_of_int i\<bar>"
proof (cases "i = 0")
  case True
  then show ?thesis by (simp add: f32_of_int_0)
next
  case False
  from f32_of_int_ge_1 [OF this] show ?thesis by simp
qed

lemma abs_mult_ge_powi:
  fixes a b :: rat
  assumes "2 powi i \<le> \<bar>a\<bar>" and "2 powi j \<le> \<bar>b\<bar>"
  shows "2 powi (i + j) \<le> \<bar>a * b\<bar>"
proof -
  have "(2::rat) powi (i + j) = 2 powi i * 2 powi j" by (simp add: power_int_add)
  also have "\<dots> \<le> \<bar>a\<bar> * \<bar>b\<bar>" using assms by (intro mult_mono) simp_all
  also have "\<dots> = \<bar>a * b\<bar>" by (simp add: abs_mult)
  finally show ?thesis .
qed

lemma f32_mul_zero_or_grid:
  assumes "2 powi i \<le> \<bar>a\<bar>" and "b = 0 \<or> 2 powi j \<le> \<bar>b\<bar>"
  shows "f32_mul a b = 0 \<or>
         (2 powi (i + j) \<le> \<bar>f32_mul a b\<bar> \<and>
          (\<exists>n. f32_mul a b = of_int n * 2 powi (i + j - 23)))"
proof (cases "b = 0")
  case True
  then show ?thesis by (simp add: f32_mul_0)
next
  case False
  with assms(2) have "2 powi j \<le> \<bar>b\<bar>" by simp
  with assms(1) have g: "2 powi (i + j) \<le> \<bar>a * b\<bar>" by (rule abs_mult_ge_powi)
  have "2 powi (i + j) \<le> \<bar>fp_round 24 (a * b)\<bar>"
    using g by (intro fp_round_abs_ge) simp_all
  moreover have "\<exists>n. fp_round 24 (a * b) = of_int n * 2 powi (i + j - (int 24 - 1))"
    using g by (intro fp_round_grid) simp_all
  ultimately show ?thesis by (simp add: f32_mul_def)
qed

lemma in_normal_rangeI:
  assumes "x = 0 \<or> 2 powi (- 24) \<le> \<bar>x\<bar>" and "\<bar>x\<bar> \<le> 2 powi 66"
  shows "in_normal_range x"
proof (cases "x = 0")
  case True
  then show ?thesis by (simp add: in_normal_range_def)
next
  case False
  with assms(1) have "2 powi (- 24) \<le> \<bar>x\<bar>" by simp
  moreover have "(2::rat) powi (- 126) \<le> 2 powi (- 24)"
    by (intro power_int_increasing) simp_all
  moreover have "(2::rat) powi 66 \<le> 2 ^ 128 - 2 ^ 104" by simp
  ultimately show ?thesis using assms(2) unfolding in_normal_range_def by linarith
qed

lemma gains_startup_lower: "2 powi (- 1) \<le> \<bar>Kp startup\<bar> \<and> 2 powi 1 \<le> \<bar>Ki startup\<bar>"
  by (simp add: Kp_startup Ki_startup power_int_minus_divide)

lemma f32_of_s32_zero_or_ge: "f32_of_s32 w = 0 \<or> 2 powi 0 \<le> \<bar>f32_of_s32 w\<bar>"
  using f32_of_int_zero_or_ge_1 [of "sint w"] by (simp add: f32_of_s32_def)

lemma f32_of_u32_zero_or_ge: "f32_of_u32 w = 0 \<or> 2 powi 0 \<le> \<bar>f32_of_u32 w\<bar>"
  using f32_of_int_zero_or_ge_1 [of "uint w"] by (simp add: f32_of_u32_def)

lemma zero_or_ge_weaken:
  fixes x :: rat
  assumes "x = 0 \<or> 2 powi k \<le> \<bar>x\<bar>" and "j \<le> k"
  shows "x = 0 \<or> 2 powi j \<le> \<bar>x\<bar>"
proof -
  have "(2::rat) powi j \<le> 2 powi k" using assms(2) by (intro power_int_increasing) simp_all
  with assms(1) show ?thesis by auto
qed

lemma regulator_values_normal:
  fixes error es q :: u32
  defines "a \<equiv> f32_mul (Kp startup) (f32_of_s32 error)"
    and "b1 \<equiv> f32_mul (Ki startup) (f32_of_s32 es)"
  defines "b \<equiv> f32_mul b1 (f32_of_u32 q)"
  shows "in_normal_range (f32_of_s32 error) \<and> in_normal_range (f32_of_s32 es) \<and>
         in_normal_range (f32_of_u32 q) \<and> in_normal_range a \<and> in_normal_range b1 \<and>
         in_normal_range b \<and> in_normal_range (f32_add a b)"
proof -
  note kl = gains_startup_lower [THEN conjunct1] and il = gains_startup_lower [THEN conjunct2]
  have ku: "\<bar>Kp startup\<bar> \<le> 2 powi 0" and iu: "\<bar>Ki startup\<bar> \<le> 2 powi 2"
    using gains_startup by simp_all
  have n1: "in_normal_range (f32_of_s32 w)" for w
    using zero_or_ge_weaken [OF f32_of_s32_zero_or_ge, of "- 24" w]
      order_trans [OF f32_of_s32_magnitude [of w], of "2 powi 66"]
    by (intro in_normal_rangeI) simp_all
  have n2: "in_normal_range (f32_of_u32 q)"
    using zero_or_ge_weaken [OF f32_of_u32_zero_or_ge, of "- 24" q]
      order_trans [OF f32_of_u32_magnitude [of q], of "2 powi 66"]
    by (intro in_normal_rangeI) simp_all
  have a_lo: "a = 0 \<or> (2 powi (- 1 + 0) \<le> \<bar>a\<bar> \<and> (\<exists>n. a = of_int n * 2 powi (- 1 + 0 - 23)))"
    unfolding a_def using kl f32_of_s32_zero_or_ge by (rule f32_mul_zero_or_grid)
  have "\<bar>Kp startup * f32_of_s32 error\<bar> \<le> 2 powi (0 + 31)"
    using ku f32_of_s32_magnitude by (rule abs_mult_le_powi)
  then have a_hi: "\<bar>a\<bar> \<le> 2 powi 31"
    unfolding a_def f32_mul_def by (intro fp_round_abs_le) simp_all
  have a_grid: "\<exists>n. a = of_int n * 2 powi (- 24)"
  proof (cases "a = 0")
    case True
    then have "a = of_int 0 * 2 powi (- 24)" by simp
    then show ?thesis by blast
  next
    case False
    with a_lo show ?thesis by simp
  qed
  have b1_lo: "b1 = 0 \<or> (2 powi (1 + 0) \<le> \<bar>b1\<bar> \<and> (\<exists>n. b1 = of_int n * 2 powi (1 + 0 - 23)))"
    unfolding b1_def using il f32_of_s32_zero_or_ge by (rule f32_mul_zero_or_grid)
  have "\<bar>Ki startup * f32_of_s32 es\<bar> \<le> 2 powi (2 + 31)"
    using iu f32_of_s32_magnitude by (rule abs_mult_le_powi)
  then have b1_hi: "\<bar>b1\<bar> \<le> 2 powi 33"
    unfolding b1_def f32_mul_def by (intro fp_round_abs_le) simp_all
  have b_lo: "b = 0 \<or> (2 powi 1 \<le> \<bar>b\<bar> \<and> (\<exists>n. b = of_int n * 2 powi (- 22)))"
  proof (cases "b1 = 0")
    case True
    then show ?thesis by (simp add: b_def f32_mul_def fp_round_def)
  next
    case False
    with b1_lo have "2 powi 1 \<le> \<bar>b1\<bar>" by simp
    from f32_mul_zero_or_grid [OF this f32_of_u32_zero_or_ge, of q]
    show ?thesis by (simp add: b_def)
  qed
  have "\<bar>b1 * f32_of_u32 q\<bar> \<le> 2 powi (33 + 32)"
    using b1_hi f32_of_u32_magnitude by (rule abs_mult_le_powi)
  then have b_hi: "\<bar>b\<bar> \<le> 2 powi 65"
    unfolding b_def f32_mul_def by (intro fp_round_abs_le) simp_all
  have b_grid: "\<exists>n. b = of_int n * 2 powi (- 24)"
  proof (cases "b = 0")
    case True
    then have "b = of_int 0 * 2 powi (- 24)" by simp
    then show ?thesis by blast
  next
    case False
    with b_lo obtain n where "b = of_int n * 2 powi (- 22)" by blast
    then show ?thesis by (rule grid_coarsen) simp
  qed
  from a_grid b_grid obtain n m where "a = of_int n * 2 powi (- 24)"
    and "b = of_int m * 2 powi (- 24)"
    by blast
  then have s_grid: "a + b = of_int (n + m) * 2 powi (- 24)"
    by (simp add: algebra_simps)
  have "\<bar>a + b\<bar> \<le> 2 powi 31 + 2 powi 65"
    using a_hi b_hi by (intro order_trans [OF abs_triangle_ineq] add_mono)
  also have "\<dots> \<le> (2::rat) powi 66" by simp
  finally have "\<bar>fp_round 24 (a + b)\<bar> \<le> 2 powi 66"
    by (intro fp_round_abs_le) simp_all
  then have s_hi: "\<bar>f32_add a b\<bar> \<le> 2 powi 66" by (simp add: f32_add_def)
  have s_lo: "f32_add a b = 0 \<or> 2 powi (- 24) \<le> \<bar>f32_add a b\<bar>"
  proof (cases "a + b = 0")
    case True
    then show ?thesis by (simp add: f32_add_def fp_round_def)
  next
    case False
    with s_grid have "2 powi (- 24) \<le> \<bar>a + b\<bar>" by (rule grid_nonzero_ge)
    then have "2 powi (- 24) \<le> \<bar>fp_round 24 (a + b)\<bar>"
      by (intro fp_round_abs_ge) simp_all
    then show ?thesis by (simp add: f32_add_def)
  qed
  have n4: "in_normal_range a"
    using zero_or_ge_weaken [of a "- 1" "- 24"] a_lo order_trans [OF a_hi, of "2 powi 66"]
    by (intro in_normal_rangeI) auto
  have n5: "in_normal_range b1"
    using zero_or_ge_weaken [of b1 1 "- 24"] b1_lo order_trans [OF b1_hi, of "2 powi 66"]
    by (intro in_normal_rangeI) auto
  have n6: "in_normal_range b"
    using zero_or_ge_weaken [of b 1 "- 24"] b_lo order_trans [OF b_hi, of "2 powi 66"]
    by (intro in_normal_rangeI) auto
  have n7: "in_normal_range (f32_add a b)"
    using s_lo s_hi by (rule in_normal_rangeI)
  from n1 n2 n4 n5 n6 n7 show ?thesis by simp
qed

lemma pre_clamp_output_normal:
  assumes "Kp s = Kp startup" and "Ki s = Ki startup" and "pre_clamp s = Inr (error, s2)"
  shows "in_normal_range (output_val s2)"
proof -
  have "output_val s2 =
          f32_add (f32_mul (Kp startup) (f32_of_s32 error))
                  (f32_mul (f32_mul (Ki startup) (f32_of_s32 (errorSum s2)))
                     (f32_of_u32 (fan_control_time_interval s div frequency s)))"
    using assms
    by (auto simp: pre_clamp_def speed_update_def pi_update_def sampling_period_def Let_def
        split: if_splits)
  then show ?thesis using regulator_values_normal by simp
qed

text \<open>
  Claim C6. For every interval greater than zero the tick sets the measured speed to
  \<open>(tickFrequency / (interval * 2)) * 60\<close> with the unsigned division taken before the
  multiplication by 60. The interval is a sample of the TIM2 counter, which the
  invariant \<open>fan_inv\<close> keeps at or below 9999; the theorem covers every interval below
  \<open>2 ^ 31\<close>, where the doubled interval does not wrap. The equation holds on words and,
  read as natural numbers, without any wrap-around. The witness is the tick with
  \<open>tickFrequency = 10000\<close> and \<open>interval = 100\<close>, which gives exactly 3000.
\<close>

theorem regulateFanSpeed_actual_RPM:
  assumes "fan_control_time_interval s \<noteq> 0" and "fan_control_time_interval s < 2 ^ 31"
    and "frequency s = 10000"
  shows "\<exists>s'. regulateFanSpeed s = Inr s' \<and>
           fan_control_actual_RPM s' =
             frequency s div (fan_control_time_interval s * 2) * 60 \<and>
           unat (fan_control_actual_RPM s') =
             10000 div (unat (fan_control_time_interval s) * 2) * 60"
proof -
  note d = double_nonzero [OF assms(1) assms(2)]
  have f0: "frequency s \<noteq> 0" by (simp add: assms(3))
  from regulateFanSpeed_Inr [OF d(1) f0]
  obtain s1 e s2 where s1: "speed_update s = Inr s1"
    and s2: "pi_update s1 = Inr (e, s2)"
    and r: "regulateFanSpeed s =
      Inr (HAL_TIM_SET_COMPARE (saturate e s2) (f32_to_u32 (output_val (saturate e s2))))"
    by blast
  have a1: "fan_control_actual_RPM s1 = frequency s div (fan_control_time_interval s * 2) * 60"
    using s1 d(1) by (auto simp: speed_update_def)
  have a2: "fan_control_actual_RPM s2 = fan_control_actual_RPM s1"
    using s2 by (auto simp: pi_update_def Let_def split: if_splits)
  have a3: "fan_control_actual_RPM
              (HAL_TIM_SET_COMPARE (saturate e s2) (f32_to_u32 (output_val (saturate e s2)))) =
            fan_control_actual_RPM s2"
    by (simp add: HAL_TIM_SET_COMPARE_def saturate_def)
  have q: "unat ((10000 :: u32) div (fan_control_time_interval s * 2)) =
           10000 div (unat (fan_control_time_interval s) * 2)"
    by (simp add: unat_div d(2))
  define A :: u32 where "A = 10000 div (fan_control_time_interval s * 2)"
  have qA: "unat A = 10000 div (unat (fan_control_time_interval s) * 2)"
    unfolding A_def by (rule q)
  have "unat A \<le> 10000" unfolding qA by (rule div_le_dividend)
  then have "unat A * unat (60 :: u32) < 2 ^ LENGTH(32)" by simp
  then have "unat (A * 60) = unat A * unat (60 :: u32)"
    by (simp only: unat_mult_lem)
  then have u: "unat ((10000 :: u32) div (fan_control_time_interval s * 2) * 60) =
           10000 div (unat (fan_control_time_interval s) * 2) * 60"
    unfolding qA unfolding A_def by simp
  show ?thesis
    using r a1 a2 a3 u by (simp add: assms(3))
qed

theorem regulateFanSpeed_actual_RPM_witness:
  "\<exists>s'. regulateFanSpeed (tick_state 3000 100) = Inr s' \<and>
        unat (fan_control_actual_RPM s') = 3000"
proof -
  have h1: "fan_control_time_interval (tick_state 3000 100) \<noteq> 0"
    and h2: "fan_control_time_interval (tick_state 3000 100) < 2 ^ 31"
    and h3: "frequency (tick_state 3000 100) = 10000"
    by (simp_all add: tick_state_fields)
  from regulateFanSpeed_actual_RPM [OF h1 h2 h3]
  show ?thesis by (auto simp: tick_state_fields)
qed

text \<open>
  Claim C8. The sampling period \<^verbatim>\<open>Ta\<close> is the unsigned integer quotient of the interval
  and the tick frequency, converted to \<^verbatim>\<open>float\<close> afterwards. For every tick with
  \<open>0 < interval < tickFrequency = 10000\<close> the quotient is zero, \<^verbatim>\<open>Ta\<close> is zero, and
  the output before the saturation is exactly the \<^verbatim>\<open>float\<close> product of \<^verbatim>\<open>Kp\<close> and
  \<^verbatim>\<open>error\<close>: the integral term adds nothing.
\<close>

theorem sampling_period_truncates:
  assumes "frequency s = 10000" and "fan_control_time_interval s \<noteq> 0"
    and "fan_control_time_interval s < frequency s"
  shows "\<exists>error s2.
           pre_clamp s = Inr (error, s2) \<and>
           error = targetRPM s - fan_control_actual_RPM s2 \<and>
           sampling_period s2 =
             f32_of_u32 (fan_control_time_interval s div frequency s) \<and>
           fan_control_time_interval s div frequency s = 0 \<and>
           sampling_period s2 = 0 \<and>
           output_val s2 = f32_mul (Kp s) (f32_of_s32 error)"
proof -
  have "fan_control_time_interval s < 2 ^ 31"
    using assms(1) assms(3) by (simp add: word_less_nat_alt)
  note d = double_nonzero [OF assms(2) this]
  have f0: "frequency s \<noteq> 0" by (simp add: assms(1))
  from pre_clamp_Inr [OF d(1) f0]
  obtain error s2 where 1: "pre_clamp s = Inr (error, s2)"
    and 2: "error = targetRPM s - fan_control_actual_RPM s2"
    and 3: "output_val s2 =
             f32_add (f32_mul (Kp s) (f32_of_s32 error))
                     (f32_mul (f32_mul (Ki s) (f32_of_s32 (errorSum s2)))
                        (f32_of_u32 (fan_control_time_interval s div frequency s)))"
    by blast
  have fr: "fan_control_time_interval s2 = fan_control_time_interval s"
    "frequency s2 = frequency s"
    using 1 d(1) f0
    by (auto simp: pre_clamp_def speed_update_def pi_update_def Let_def)
  have 4: "sampling_period s2 = f32_of_u32 (fan_control_time_interval s div frequency s)"
    by (simp add: sampling_period_def fr)
  have 5: "fan_control_time_interval s div frequency s = 0"
    using assms(3) by (rule word_div_less_zero)
  have 6: "sampling_period s2 = 0"
    by (simp add: 4 5 f32_of_u32_def f32_of_int_0)
  have "output_val s2 =
          f32_add (f32_mul (Kp s) (f32_of_s32 error))
                  (f32_mul (f32_mul (Ki s) (f32_of_s32 (errorSum s2))) 0)"
    by (simp add: 3 5 f32_of_u32_def f32_of_int_0)
  also have "\<dots> = f32_add (fp_round 24 (Kp s * f32_of_s32 error)) 0"
    by (simp add: f32_mul_0) (simp add: f32_mul_def)
  also have "\<dots> = fp_round 24 (Kp s * f32_of_s32 error)" by (rule f32_add_0)
  finally have 7: "output_val s2 = f32_mul (Kp s) (f32_of_s32 error)"
    by (simp add: f32_mul_def)
  from 1 2 4 5 6 7 show ?thesis by blast
qed

theorem sampling_period_truncates_witness:
  "\<exists>error s2. pre_clamp (tick_state 3200 100) = Inr (error, s2) \<and>
     sampling_period s2 = 0 \<and>
     output_val s2 = f32_mul (Kp (tick_state 3200 100)) (f32_of_s32 error)"
proof -
  have h1: "frequency (tick_state 3200 100) = 10000"
    and h2: "fan_control_time_interval (tick_state 3200 100) \<noteq> 0"
    and h3: "fan_control_time_interval (tick_state 3200 100) < frequency (tick_state 3200 100)"
    by (simp_all add: tick_state_fields)
  from sampling_period_truncates [OF h1 h2 h3] show ?thesis by blast
qed

text \<open>
  Claim C1 says that the output before the saturation is
  \<open>Kp * error + Ki * integralSum * samplingPeriod\<close> with the real-valued quotient
  \<open>interval / tickFrequency\<close> as sampling period, 0.01 for an interval of 100. The
  code divides the two unsigned integers first. At the tick with \<open>targetRPM = 3200\<close>
  and \<open>interval = 100\<close> the sampling period of the code is 0 and its output before the
  saturation is 196; with the quotient of the specification the sampling period is the
  \<^verbatim>\<open>float\<close> next to 0.01 and the output the \<^verbatim>\<open>float\<close> next to 200.2. The code emits
  196 and keeps \<^verbatim>\<open>errorSum = 200\<close>.
\<close>

theorem integer_sampling_period:
  "map_sum id (\<lambda>(error, s2). (error, errorSum s2, sampling_period s2, output_val s2))
     (pre_clamp (tick_state 3200 100)) = Inr (200, 200, 0, 196) \<and>
   map_sum id (\<lambda>(error, s2). (error, errorSum s2, spec_sampling_period s2, output_val s2))
     (case speed_update (tick_state 3200 100) of Inl f \<Rightarrow> Inl f | Inr s1 \<Rightarrow> spec_pi_update s1)
     = Inr (200, 200, 5368709 / 536870912, 13120307 / 65536) \<and>
   map_sum id (\<lambda>s'. (output_val s', errorSum s', tim3_ccr2 s'))
     (regulateFanSpeed (tick_state 3200 100)) = Inr (196, 200, 196)"
  by code_simp

text \<open>
  Claim C3 is the scenario of one tick with an error of 200 and \<open>integralSum = 0\<close>
  before it, at \<open>interval = 100\<close> and \<open>tickFrequency = 10000\<close>: the sum becomes 200,
  the output before the saturation is 200.2, the emitted output is clamped to
  \<^verbatim>\<open>MAX_PWM = 199\<close> and the sum goes back to 0. At \<open>interval = 100\<close> the measured speed
  is 3000, so the error of 200 belongs to the setpoint 3200 (the measured speed 2800 of
  the scenario does not occur at this interval). There the tick as the specification
  words it does what the claim says: the output before the saturation is the \<^verbatim>\<open>float\<close>
  next to 200.2, the emitted output and the compare value are 199, and \<^verbatim>\<open>errorSum\<close> is
  0 after the tick. The code divides the interval by the frequency as integers, so its
  sampling period is 0: its output before the saturation is 196, nothing is clamped,
  it emits 196 and leaves \<^verbatim>\<open>errorSum\<close> at 200.
\<close>

theorem scenario_2_not_clamped:
  "map_sum id (\<lambda>(error, s2). fan_control_actual_RPM s2) (pre_clamp (tick_state 3000 100))
     = Inr 3000 \<and>
   map_sum id (\<lambda>(error, s2). (fan_control_actual_RPM s2, error, errorSum s2, output_val s2))
     (pre_clamp (tick_state 3200 100)) = Inr (3000, 200, 200, 196) \<and>
   map_sum id (\<lambda>s'. (output_val s', tim3_ccr2 s', errorSum s'))
     (regulateFanSpeed (tick_state 3200 100)) = Inr (196, 196, 200) \<and>
   map_sum id (\<lambda>(error, s2). (fan_control_actual_RPM s2, error, errorSum s2, output_val s2))
     (case speed_update (tick_state 3200 100) of Inl f \<Rightarrow> Inl f | Inr s1 \<Rightarrow> spec_pi_update s1)
     = Inr (3000, 200, 200, 13120307 / 65536) \<and>
   map_sum id (\<lambda>s'. (output_val s', tim3_ccr2 s', errorSum s'))
     (spec_regulateFanSpeed (tick_state 3200 100)) = Inr (of_int MAX_PWM, 199, 0)"
  by code_simp

section \<open>The running system\<close>

lemma step_idle_edge:
  "fan_start_flag s = 0 \<Longrightarrow>
   EXTI1_IRQHandler s = Inr (s\<lparr>tim2_cen := True, fan_start_flag := 1\<rparr>)"
  by (simp add: EXTI1_IRQHandler_def HAL_GPIO_EXTI_Callback_def HAL_TIM_Base_Start_def)

lemma step_measuring_edge:
  "fan_start_flag s \<noteq> 0 \<Longrightarrow>
   EXTI1_IRQHandler s =
     (case regulateFanSpeed (s\<lparr>tim2_cen := False, fan_control_time_interval := tim2_cnt s\<rparr>) of
        Inl f \<Rightarrow> Inl f
      | Inr s3 \<Rightarrow> Inr (s3\<lparr>tim2_cnt := 0, fan_start_flag := 0\<rparr>))"
  by (simp add: EXTI1_IRQHandler_def HAL_GPIO_EXTI_Callback_def HAL_TIM_Base_Stop_def
      HAL_TIM_GET_COUNTER_def HAL_TIM_SET_COUNTER_def Let_def split: sum.splits)

lemma in_duty_range_cong:
  "output_val t = output_val s \<Longrightarrow> tim3_ccr2 t = tim3_ccr2 s \<Longrightarrow>
   in_duty_range t = in_duty_range s"
  by (simp add: in_duty_range_def)

lemma step_measuring_edge_in_duty_range:
  assumes "fan_start_flag s \<noteq> 0" and "EXTI1_IRQHandler s = Inr s'"
  shows "in_duty_range s' \<and> fan_start_flag s' = 0"
proof -
  from assms obtain s3 where
    r: "regulateFanSpeed (s\<lparr>tim2_cen := False, fan_control_time_interval := tim2_cnt s\<rparr>) = Inr s3"
    and s': "s' = s3\<lparr>tim2_cnt := 0, fan_start_flag := 0\<rparr>"
    by (auto simp: step_measuring_edge split: sum.splits)
  have "in_duty_range s3" using r by (rule regulateFanSpeed_in_duty_range)
  moreover have "in_duty_range s' = in_duty_range s3"
    by (rule in_duty_range_cong) (simp_all add: s')
  ultimately show ?thesis by (simp add: s')
qed

lemma step_other:
  assumes "e \<noteq> TachoEdge"
  shows "\<exists>s'. step s e = Inr s' \<and> fan_start_flag s' = fan_start_flag s \<and>
           output_val s' = output_val s \<and> tim3_ccr2 s' = tim3_ccr2 s \<and>
           errorSum s' = errorSum s \<and> tim3_cc2e s' = tim3_cc2e s"
  using assms by (cases e) (simp_all add: tim2_clock_def fan_control_set_rpm_def Let_def)

lemma step_in_duty_range:
  assumes "in_duty_range s" and "step s e = Inr s'"
  shows "in_duty_range s'"
proof (cases "e = TachoEdge")
  case True
  show ?thesis
  proof (cases "fan_start_flag s = 0")
    case True
    with \<open>e = TachoEdge\<close> assms show ?thesis
      by (auto simp: step_idle_edge in_duty_range_def)
  next
    case False
    have "EXTI1_IRQHandler s = Inr s'" using \<open>e = TachoEdge\<close> assms(2) by simp
    with False step_measuring_edge_in_duty_range show ?thesis by blast
  qed
next
  case False
  from step_other [OF False, of s] assms show ?thesis
    by (auto simp: in_duty_range_def)
qed

lemma exec_in_duty_range:
  "exec s evs = Inr t \<Longrightarrow>
   in_duty_range s \<or> (if fan_start_flag s = 0 then 2 else 1) \<le> count_list evs TachoEdge \<Longrightarrow>
   in_duty_range t"
proof (induction evs arbitrary: s)
  case Nil
  then show ?case by (simp split: if_splits)
next
  case (Cons e es)
  from Cons.prems(1) obtain s' where st: "step s e = Inr s'" and ex: "exec s' es = Inr t"
    by (auto split: sum.splits)
  show ?case
  proof (cases "in_duty_range s")
    case True
    then have "in_duty_range s'" using st by (rule step_in_duty_range)
    then show ?thesis using Cons.IH [OF ex] by simp
  next
    case False
    with Cons.prems(2)
    have c: "(if fan_start_flag s = 0 then 2 else 1) \<le> count_list (e # es) TachoEdge" by simp
    show ?thesis
    proof (cases "e = TachoEdge")
      case True
      show ?thesis
      proof (cases "fan_start_flag s = 0")
        case True
        with \<open>e = TachoEdge\<close> st have "fan_start_flag s' \<noteq> 0"
          by (auto simp: step_idle_edge)
        moreover have "1 \<le> count_list es TachoEdge"
          using c True \<open>e = TachoEdge\<close> by simp
        ultimately show ?thesis using Cons.IH [OF ex] by simp
      next
        case False
        have "EXTI1_IRQHandler s = Inr s'" using \<open>e = TachoEdge\<close> st by simp
        with False step_measuring_edge_in_duty_range
        have "in_duty_range s'" by blast
        then show ?thesis using Cons.IH [OF ex] by simp
      qed
    next
      case False
      from step_other [OF False, of s] st
      have "fan_start_flag s' = fan_start_flag s" by auto
      moreover have "count_list (e # es) TachoEdge = count_list es TachoEdge"
        using False by simp
      ultimately show ?thesis using Cons.IH [OF ex] c by simp
    qed
  qed
qed

lemma exec_append:
  "exec s (xs @ ys) = (case exec s xs of Inl f \<Rightarrow> Inl f | Inr s' \<Rightarrow> exec s' ys)"
  by (induction xs arbitrary: s) (auto split: sum.splits)

lemma exec_flag_parity:
  "exec s evs = Inr t \<Longrightarrow>
   (fan_start_flag t = 0) = ((fan_start_flag s = 0) = even (count_list evs TachoEdge))"
proof (induction evs arbitrary: s)
  case Nil
  then show ?case by simp
next
  case (Cons e es)
  from Cons.prems obtain s1 where st: "step s e = Inr s1" and ex: "exec s1 es = Inr t"
    by (auto split: sum.splits)
  note ih = Cons.IH [OF ex]
  show ?case
  proof (cases "e = TachoEdge")
    case True
    show ?thesis
    proof (cases "fan_start_flag s = 0")
      case True
      with \<open>e = TachoEdge\<close> st have "fan_start_flag s1 \<noteq> 0" by (auto simp: step_idle_edge)
      with ih True \<open>e = TachoEdge\<close> show ?thesis by simp
    next
      case False
      have "EXTI1_IRQHandler s = Inr s1" using \<open>e = TachoEdge\<close> st by simp
      with False step_measuring_edge_in_duty_range have "fan_start_flag s1 = 0" by blast
      with ih False \<open>e = TachoEdge\<close> show ?thesis by simp
    qed
  next
    case False
    from step_other [OF False, of s] st have "fan_start_flag s1 = fan_start_flag s" by auto
    with ih False show ?thesis by simp
  qed
qed

lemma init_pwm: "tim3_cc2e fan_control_init \<and> tim3_ccr2 fan_control_init = 0 \<and>
    output_val fan_control_init = 0 \<and> fan_start_flag fan_control_init = 0"
  by code_simp

lemma zero_not_in_duty_range: "tim3_ccr2 s = 0 \<Longrightarrow> \<not> in_duty_range s"
  by (simp add: in_duty_range_def)

lemma exec_before_first_tick:
  "tim3_cc2e s \<and> tim3_ccr2 s = 0 \<and> output_val s = 0 \<Longrightarrow>
   count_list evs TachoEdge < (if fan_start_flag s = 0 then 2 else 1) \<Longrightarrow>
   \<exists>t. exec s evs = Inr t \<and> tim3_cc2e t \<and> tim3_ccr2 t = 0 \<and> output_val t = 0"
proof (induction evs arbitrary: s)
  case Nil
  then show ?case by simp
next
  case (Cons e es)
  show ?case
  proof (cases "e = TachoEdge")
    case True
    with Cons.prems(2) have idle: "fan_start_flag s = 0" and c: "count_list es TachoEdge < 1"
      by (simp_all split: if_splits)
    define s1 where "s1 = s\<lparr>tim2_cen := True, fan_start_flag := 1\<rparr>"
    have st: "step s e = Inr s1" using True idle by (simp add: step_idle_edge s1_def)
    have "tim3_cc2e s1 \<and> tim3_ccr2 s1 = 0 \<and> output_val s1 = 0"
      using Cons.prems(1) by (simp add: s1_def)
    moreover have "count_list es TachoEdge < (if fan_start_flag s1 = 0 then 2 else 1)"
      using c by (simp add: s1_def)
    ultimately have "\<exists>t. exec s1 es = Inr t \<and> tim3_cc2e t \<and> tim3_ccr2 t = 0 \<and> output_val t = 0"
      by (rule Cons.IH)
    then show ?thesis using st by simp
  next
    case False
    from step_other [OF False, of s] obtain s1 where st: "step s e = Inr s1"
      and fr: "fan_start_flag s1 = fan_start_flag s" "output_val s1 = output_val s"
        "tim3_ccr2 s1 = tim3_ccr2 s" "tim3_cc2e s1 = tim3_cc2e s"
      by blast
    have "tim3_cc2e s1 \<and> tim3_ccr2 s1 = 0 \<and> output_val s1 = 0"
      using Cons.prems(1) fr by simp
    moreover have "count_list es TachoEdge < (if fan_start_flag s1 = 0 then 2 else 1)"
      using Cons.prems(2) False fr by simp
    ultimately have "\<exists>t. exec s1 es = Inr t \<and> tim3_cc2e t \<and> tim3_ccr2 t = 0 \<and> output_val t = 0"
      by (rule Cons.IH)
    then show ?thesis using st by simp
  qed
qed

text \<open>
  The invariant holds after \<^verbatim>\<open>fan_control_init\<close> and every event keeps it. In
  particular every sampled interval is at most 9999, and a tick whose sampled counter
  is not zero returns.
\<close>

lemma fan_inv_init: "fan_inv fan_control_init"
  by code_simp

lemma ucast_sample_le: "(ucast (v :: 12 word) :: u32) \<le> 4095"
proof -
  have "unat v < 2 ^ 12" using unsigned_less [of v, where ?'a = nat] by simp
  then have "unat (ucast v :: u32) \<le> 4095"
    by (simp add: unsigned_ucast_eq take_bit_nat_eq_self)
  then show ?thesis by (simp add: word_le_nat_alt)
qed

lemma counter_step_le:
  fixes c :: u32
  assumes "c < 9999"
  shows "c + 1 \<le> 9999"
  using assms by (simp add: inc_le)

lemma fan_inv_set_rpm:
  assumes "fan_inv s"
  shows "fan_inv (fan_control_set_rpm s)"
proof -
  have len: "length (dma_address s) = 200" and all: "\<forall>v \<in> set (dma_address s). v \<le> 4095"
    using assms by (simp_all add: fan_inv_def)
  have "\<forall>j < 200. dma_address s ! j \<le> 4095"
    using len all by (simp add: all_set_conv_all_nth)
  then have "potis_dma_get_avg (dma_address s) POTIS_DMA_1 \<le> 4095"
    by (rule potis_dma_get_avg_bound)
  from setpoint_scale(3) [OF this]
  have "targetRPM (fan_control_set_rpm s) \<le> 4500"
    by (simp add: fan_control_set_rpm_def Let_def)
  moreover have "fan_control_set_rpm s =
      s\<lparr>fan_control_poti_val := fan_control_poti_val (fan_control_set_rpm s),
        targetRPM := targetRPM (fan_control_set_rpm s)\<rparr>"
    by (simp add: fan_control_set_rpm_def Let_def)
  ultimately show ?thesis
    using assms by (simp add: fan_inv_def fan_control_set_rpm_def Let_def)
qed

lemma step_fan_inv:
  assumes "fan_inv s" and "step s e = Inr s'"
  shows "fan_inv s'"
proof (cases e)
  case TachoEdge
  show ?thesis
  proof (cases "fan_start_flag s = 0")
    case True
    with TachoEdge assms show ?thesis
      by (auto simp: step_idle_edge fan_inv_def)
  next
    case False
    define s2 where "s2 = s\<lparr>tim2_cen := False, fan_control_time_interval := tim2_cnt s\<rparr>"
    from False TachoEdge assms(2) obtain s3 where
      r: "regulateFanSpeed s2 = Inr s3" and s': "s' = s3\<lparr>tim2_cnt := 0, fan_start_flag := 0\<rparr>"
      by (auto simp: step_measuring_edge s2_def split: sum.splits)
    from regulateFanSpeed_frame [OF r] assms(1)
    show ?thesis by (simp add: fan_inv_def s' s2_def)
  qed
next
  case Tim2Clock
  with assms show ?thesis
    by (auto simp: fan_inv_def tim2_clock_def counter_step_le)
next
  case MainLoop
  with assms fan_inv_set_rpm show ?thesis by auto
next
  case (AdcSample i v)
  have "set ((dma_address s)[i mod 200 := ucast v]) \<subseteq> insert (ucast v) (set (dma_address s))"
    by (rule set_update_subset_insert)
  with AdcSample assms ucast_sample_le [of v] show ?thesis
    by (auto simp: fan_inv_def)
qed

lemma exec_fan_inv: "fan_inv s \<Longrightarrow> exec s evs = Inr s' \<Longrightarrow> fan_inv s'"
proof (induction evs arbitrary: s)
  case Nil
  then show ?case by simp
next
  case (Cons e es)
  from Cons.prems(2) obtain s1 where st: "step s e = Inr s1" and ex: "exec s1 es = Inr s'"
    by (auto split: sum.splits)
  from Cons.prems(1) st have "fan_inv s1" by (rule step_fan_inv)
  then show ?case using ex by (rule Cons.IH)
qed

lemma inv_tick_runs:
  assumes "fan_inv s" and "tim2_cnt s \<noteq> 0"
  shows "\<exists>s3. regulateFanSpeed
                 (s\<lparr>tim2_cen := False, fan_control_time_interval := tim2_cnt s\<rparr>) = Inr s3"
proof -
  define s2 where "s2 = s\<lparr>tim2_cen := False, fan_control_time_interval := tim2_cnt s\<rparr>"
  have c: "tim2_cnt s \<le> 9999" and f: "frequency s = 10000"
    using assms(1) by (simp_all add: fan_inv_def)
  have "unat (tim2_cnt s) \<le> 9999" using c by (simp add: word_le_nat_alt)
  then have "tim2_cnt s < 2 ^ 31" by (simp add: word_less_nat_alt)
  with assms(2) have "fan_control_time_interval s2 * 2 \<noteq> 0"
    by (simp add: s2_def double_nonzero(1))
  moreover have "frequency s2 \<noteq> 0" by (simp add: s2_def f)
  ultimately show ?thesis
    using regulateFanSpeed_Inr [of s2] unfolding s2_def by blast
qed



text \<open>
  Claim C5. The output at the end of every tick lies between \<^verbatim>\<open>MIN_PWM = 15\<close> and
  \<^verbatim>\<open>MAX_PWM = 199\<close>, and so does the compare value the tick writes to the PWM channel:
  for a tick from any state, and in every run of the initialised system once the
  second edge has come. A tick with an interval between 1 and \<open>2 ^ 31 - 1\<close> returns.
\<close>

theorem output_within_duty_range:
  "(regulateFanSpeed s = Inr s' \<longrightarrow> in_duty_range s') \<and>
   (exec fan_control_init evs = Inr t \<and> 2 \<le> count_list evs TachoEdge \<longrightarrow> in_duty_range t) \<and>
   (fan_control_time_interval s \<noteq> 0 \<and> fan_control_time_interval s < 2 ^ 31 \<and>
    frequency s \<noteq> 0 \<longrightarrow> (\<exists>s'. regulateFanSpeed s = Inr s'))"
proof (intro conjI impI)
  assume "regulateFanSpeed s = Inr s'"
  then show "in_duty_range s'" by (rule regulateFanSpeed_in_duty_range)
next
  assume a: "exec fan_control_init evs = Inr t \<and> 2 \<le> count_list evs TachoEdge"
  then have "(if fan_start_flag fan_control_init = 0 then 2 else 1) \<le> count_list evs TachoEdge"
    by simp
  with a show "in_duty_range t" using exec_in_duty_range by blast
next
  assume a: "fan_control_time_interval s \<noteq> 0 \<and> fan_control_time_interval s < 2 ^ 31 \<and>
    frequency s \<noteq> 0"
  then have "fan_control_time_interval s * 2 \<noteq> 0" using double_nonzero(1) by blast
  with a regulateFanSpeed_Inr [of s] show "\<exists>s'. regulateFanSpeed s = Inr s'" by auto
qed

theorem output_within_duty_range_witness:
  "(\<exists>s'. regulateFanSpeed (tick_state 3200 100) = Inr s' \<and> in_duty_range s') \<and>
   (\<exists>t. exec fan_control_init [TachoEdge, Tim2Clock, Tim2Clock, TachoEdge] = Inr t \<and>
        in_duty_range t)"
proof
  have h: "fan_control_time_interval (tick_state 3200 100) \<noteq> 0 \<and>
      fan_control_time_interval (tick_state 3200 100) < 2 ^ 31 \<and>
      frequency (tick_state 3200 100) \<noteq> 0"
    by (simp add: tick_state_fields)
  with output_within_duty_range [of "tick_state 3200 100"]
  obtain s' where r: "regulateFanSpeed (tick_state 3200 100) = Inr s'" by blast
  with output_within_duty_range [of "tick_state 3200 100" s'] have "in_duty_range s'" by blast
  with r show "\<exists>s'. regulateFanSpeed (tick_state 3200 100) = Inr s' \<and> in_duty_range s'"
    by blast
next
  have "\<not> isl (exec fan_control_init [TachoEdge, Tim2Clock, Tim2Clock, TachoEdge])"
    by code_simp
  then obtain t where
    x: "exec fan_control_init [TachoEdge, Tim2Clock, Tim2Clock, TachoEdge] = Inr t"
    by (cases "exec fan_control_init [TachoEdge, Tim2Clock, Tim2Clock, TachoEdge]") simp_all
  have c: "2 \<le> count_list [TachoEdge, Tim2Clock, Tim2Clock, TachoEdge] TachoEdge" by simp
  from x c output_within_duty_range [of _ _ "[TachoEdge, Tim2Clock, Tim2Clock, TachoEdge]" t]
  have "in_duty_range t" by blast
  with x show "\<exists>t. exec fan_control_init [TachoEdge, Tim2Clock, Tim2Clock, TachoEdge] = Inr t \<and>
        in_duty_range t"
    by blast
qed

text \<open>
  Claim C2 says that a tick with an interval of zero skips the computation and leaves
  the state as it was. The code has no such test: with an interval of zero the first
  statement of \<^verbatim>\<open>regulateFanSpeed\<close> divides by zero, from every state. Two edges with
  no counter tick between them reach that tick right after the initialisation.
\<close>

theorem zero_interval_divides_by_zero:
  "regulateFanSpeed (s\<lparr>fan_control_time_interval := 0\<rparr>) = Inl DivisionByZero \<and>
   exec fan_control_init [TachoEdge, TachoEdge] = Inl DivisionByZero"
proof
  show "regulateFanSpeed (s\<lparr>fan_control_time_interval := 0\<rparr>) = Inl DivisionByZero"
    by (simp add: regulateFanSpeed_def speed_update_def)
  show "exec fan_control_init [TachoEdge, TachoEdge] = Inl DivisionByZero"
    by code_simp
qed

text \<open>
  The alternation of the capture. In every run of the initialised system that returns,
  after an even number of edges the capture is idle (\<^verbatim>\<open>fan_start_flag = 0\<close>), the
  counter is stopped and zero, and the next edge only starts the counter and sets the
  flag: nothing else of the state changes, so nothing is emitted. After an odd number
  of edges a measurement is open, the counter runs, and the next edge stops the
  counter, stores its value as the interval and runs \<^verbatim>\<open>regulateFanSpeed\<close> once; when
  the sampled counter is not zero the tick returns, the counter is reset to zero and
  the flag is cleared.
\<close>

lemma capture_alternates:
  assumes "exec fan_control_init evs = Inr s"
  shows "(fan_start_flag s = 0 \<longleftrightarrow> even (count_list evs TachoEdge)) \<and>
         (fan_start_flag s = 1 \<longleftrightarrow> odd (count_list evs TachoEdge)) \<and>
         (tim2_cen s \<longleftrightarrow> odd (count_list evs TachoEdge)) \<and>
         (even (count_list evs TachoEdge) \<longrightarrow>
            tim2_cnt s = 0 \<and>
            step s TachoEdge = Inr (s\<lparr>tim2_cen := True, fan_start_flag := 1\<rparr>)) \<and>
         (odd (count_list evs TachoEdge) \<longrightarrow>
            step s TachoEdge =
              (case regulateFanSpeed
                      (s\<lparr>tim2_cen := False, fan_control_time_interval := tim2_cnt s\<rparr>) of
                 Inl f \<Rightarrow> Inl f
               | Inr s3 \<Rightarrow> Inr (s3\<lparr>tim2_cnt := 0, fan_start_flag := 0\<rparr>)) \<and>
            (tim2_cnt s \<noteq> 0 \<longrightarrow>
               (\<exists>s'. step s TachoEdge = Inr s' \<and> fan_start_flag s' = 0 \<and>
                     tim2_cnt s' = 0 \<and> \<not> tim2_cen s' \<and>
                     fan_control_time_interval s' = tim2_cnt s)))"
proof -
  have inv: "fan_inv s" using fan_inv_init assms by (rule exec_fan_inv)
  have f0: "fan_start_flag fan_control_init = 0" using init_pwm by simp
  from exec_flag_parity [OF assms]
  have p: "(fan_start_flag s = 0) = even (count_list evs TachoEdge)" by (simp add: f0)
  have "fan_start_flag s \<le> 1" using inv by (simp add: fan_inv_def)
  then have "unat (fan_start_flag s) \<le> 1" by (simp add: word_le_nat_alt)
  then have "unat (fan_start_flag s) = 0 \<or> unat (fan_start_flag s) = unat (1 :: u8)"
    by auto
  then have "fan_start_flag s = 0 \<or> fan_start_flag s = 1"
    by (simp only: unat_eq_0 word_unat_eq_iff [symmetric])
  then have q: "(fan_start_flag s = 1) = odd (count_list evs TachoEdge)" using p by auto
  have c: "tim2_cen s = odd (count_list evs TachoEdge)"
    using inv p by (simp add: fan_inv_def)
  have z: "even (count_list evs TachoEdge) \<longrightarrow> tim2_cnt s = 0"
    using inv p by (simp add: fan_inv_def)
  have t: "tim2_cnt s \<noteq> 0 \<longrightarrow>
      (\<exists>s'. (case regulateFanSpeed
                      (s\<lparr>tim2_cen := False, fan_control_time_interval := tim2_cnt s\<rparr>) of
                 Inl f \<Rightarrow> Inl f
               | Inr s3 \<Rightarrow> Inr (s3\<lparr>tim2_cnt := 0, fan_start_flag := 0\<rparr>)) = Inr s' \<and>
             fan_start_flag s' = 0 \<and> tim2_cnt s' = 0 \<and> \<not> tim2_cen s' \<and>
             fan_control_time_interval s' = tim2_cnt s)"
  proof
    assume "tim2_cnt s \<noteq> 0"
    from inv_tick_runs [OF inv this] obtain s3 where
      r: "regulateFanSpeed (s\<lparr>tim2_cen := False, fan_control_time_interval := tim2_cnt s\<rparr>)
            = Inr s3"
      by blast
    from regulateFanSpeed_frame [OF r]
    have "\<not> tim2_cen s3" "fan_control_time_interval s3 = tim2_cnt s" by simp_all
    then show "\<exists>s'. (case regulateFanSpeed
                      (s\<lparr>tim2_cen := False, fan_control_time_interval := tim2_cnt s\<rparr>) of
                 Inl f \<Rightarrow> Inl f
               | Inr s3 \<Rightarrow> Inr (s3\<lparr>tim2_cnt := 0, fan_start_flag := 0\<rparr>)) = Inr s' \<and>
             fan_start_flag s' = 0 \<and> tim2_cnt s' = 0 \<and> \<not> tim2_cen s' \<and>
             fan_control_time_interval s' = tim2_cnt s"
      by (simp add: r)
  qed
  have odd_step: "odd (count_list evs TachoEdge) \<Longrightarrow> step s TachoEdge =
              (case regulateFanSpeed
                      (s\<lparr>tim2_cen := False, fan_control_time_interval := tim2_cnt s\<rparr>) of
                 Inl f \<Rightarrow> Inl f
               | Inr s3 \<Rightarrow> Inr (s3\<lparr>tim2_cnt := 0, fan_start_flag := 0\<rparr>))"
    using p by (simp add: step_measuring_edge)
  have even_step: "even (count_list evs TachoEdge) \<Longrightarrow>
      step s TachoEdge = Inr (s\<lparr>tim2_cen := True, fan_start_flag := 1\<rparr>)"
    using p by (simp add: step_idle_edge)
  show ?thesis
  proof (intro conjI impI)
    show "(fan_start_flag s = 0) = even (count_list evs TachoEdge)" by (rule p)
    show "(fan_start_flag s = 1) = odd (count_list evs TachoEdge)" by (rule q)
    show "tim2_cen s = odd (count_list evs TachoEdge)" by (rule c)
  next
    assume "even (count_list evs TachoEdge)"
    then show "tim2_cnt s = 0" using z by simp
  next
    assume "even (count_list evs TachoEdge)"
    then show "step s TachoEdge = Inr (s\<lparr>tim2_cen := True, fan_start_flag := 1\<rparr>)"
      by (rule even_step)
  next
    assume "odd (count_list evs TachoEdge)"
    then show "step s TachoEdge =
              (case regulateFanSpeed
                      (s\<lparr>tim2_cen := False, fan_control_time_interval := tim2_cnt s\<rparr>) of
                 Inl f \<Rightarrow> Inl f
               | Inr s3 \<Rightarrow> Inr (s3\<lparr>tim2_cnt := 0, fan_start_flag := 0\<rparr>))"
      by (rule odd_step)
  next
    assume o: "odd (count_list evs TachoEdge)" and n: "tim2_cnt s \<noteq> 0"
    from t [rule_format, OF n] obtain s' where
      a: "(case regulateFanSpeed
                  (s\<lparr>tim2_cen := False, fan_control_time_interval := tim2_cnt s\<rparr>) of
             Inl f \<Rightarrow> Inl f
           | Inr s3 \<Rightarrow> Inr (s3\<lparr>tim2_cnt := 0, fan_start_flag := 0\<rparr>)) = Inr s'"
      and b: "fan_start_flag s' = 0" "tim2_cnt s' = 0" "\<not> tim2_cen s'"
        "fan_control_time_interval s' = tim2_cnt s"
      by (elim exE conjE)
    have "step s TachoEdge = Inr s'" by (rule trans [OF odd_step [OF o] a])
    with b show "\<exists>s'. step s TachoEdge = Inr s' \<and> fan_start_flag s' = 0 \<and>
                     tim2_cnt s' = 0 \<and> \<not> tim2_cen s' \<and>
                     fan_control_time_interval s' = tim2_cnt s"
      by (intro exI [of _ s'] conjI)
  qed
qed

lemma capture_alternates_example:
  "\<exists>s s'. exec fan_control_init [TachoEdge, Tim2Clock, TachoEdge, MainLoop, TachoEdge, Tim2Clock]
             = Inr s \<and>
       fan_start_flag s = 1 \<and> tim2_cen s \<and> tim2_cnt s = 1 \<and>
       step s TachoEdge = Inr s' \<and> fan_start_flag s' = 0 \<and> tim2_cnt s' = 0 \<and>
       \<not> tim2_cen s' \<and> fan_control_time_interval s' = 1"
proof -
  have "map_sum id tim2_cnt
          (exec fan_control_init [TachoEdge, Tim2Clock, TachoEdge, MainLoop, TachoEdge, Tim2Clock])
        = Inr 1"
    by code_simp
  then obtain s where
    x: "exec fan_control_init [TachoEdge, Tim2Clock, TachoEdge, MainLoop, TachoEdge, Tim2Clock]
          = Inr s"
    and c: "tim2_cnt s = 1"
    by (cases "exec fan_control_init
                 [TachoEdge, Tim2Clock, TachoEdge, MainLoop, TachoEdge, Tim2Clock]") simp_all
  have o: "odd (count_list [TachoEdge, Tim2Clock, TachoEdge, MainLoop, TachoEdge, Tim2Clock]
                  TachoEdge)"
    by simp
  note ca = capture_alternates [OF x]
  have f: "fan_start_flag s = 1" by (rule iffD2 [OF ca [THEN conjunct2, THEN conjunct1] o])
  have e: "tim2_cen s"
    by (rule iffD2 [OF ca [THEN conjunct2, THEN conjunct2, THEN conjunct1] o])
  have n: "tim2_cnt s \<noteq> 0" by (simp add: c)
  from ca [THEN conjunct2, THEN conjunct2, THEN conjunct2, THEN conjunct2, rule_format,
      OF o, THEN conjunct2, rule_format, OF n]
  obtain s' where "step s TachoEdge = Inr s'" "fan_start_flag s' = 0" "tim2_cnt s' = 0"
    "\<not> tim2_cen s'" "fan_control_time_interval s' = tim2_cnt s"
    by (elim exE conjE)
  with x f e c show ?thesis by (intro exI [of _ s] exI [of _ s'] conjI) simp_all
qed

text \<open>
  Claim C7 says that in every sequence of edges every even-numbered edge stops the
  counter, samples it, runs the regulator once, resets the counter and returns the
  capture to idle. The code does so only while the sampled counter is not zero. After
  the first edge the capture is measuring with the counter running at 0; a second edge
  before the first clock tick of the counter samples the interval 0, and the tick
  divides by zero (the defect of claim C2): the counter is not reset and the capture
  does not return to idle, whatever events follow.
\<close>

theorem second_edge_at_zero_faults:
  "map_sum id (\<lambda>s. (fan_start_flag s, tim2_cen s, tim2_cnt s))
     (exec fan_control_init [TachoEdge]) = Inr (1, True, 0) \<and>
   exec fan_control_init (TachoEdge # TachoEdge # es) = Inl DivisionByZero"
proof
  show "map_sum id (\<lambda>s. (fan_start_flag s, tim2_cen s, tim2_cnt s))
     (exec fan_control_init [TachoEdge]) = Inr (1, True, 0)"
    by code_simp
  have "exec fan_control_init [TachoEdge, TachoEdge] = Inl DivisionByZero"
    by code_simp
  then have "exec fan_control_init ([TachoEdge, TachoEdge] @ es) = Inl DivisionByZero"
    by (simp only: exec_append sum.case)
  then show "exec fan_control_init (TachoEdge # TachoEdge # es) = Inl DivisionByZero"
    by simp
qed

text \<open>
  Claim C9. After \<^verbatim>\<open>fan_control_init\<close> the PWM channel is running with the compare
  value 0, below \<^verbatim>\<open>MIN_PWM = 15\<close>, and \<^verbatim>\<open>output\<close> is 0. As long as fewer than two
  edges have come, every run keeps both at 0, so the duty is outside the range of
  claim C5 there. The second edge runs the first tick, which puts the duty in range.
\<close>

theorem pwm_zero_until_first_tick:
  "tim3_cc2e fan_control_init \<and> tim3_ccr2 fan_control_init = 0 \<and>
   output_val fan_control_init = 0 \<and> \<not> in_duty_range fan_control_init \<and>
   (count_list evs TachoEdge < 2 \<longrightarrow>
      (\<exists>t. exec fan_control_init evs = Inr t \<and> tim3_cc2e t \<and> tim3_ccr2 t = 0 \<and>
           output_val t = 0 \<and> \<not> in_duty_range t)) \<and>
   (count_list evs TachoEdge = 1 \<and> exec fan_control_init evs = Inr s \<and>
    step s TachoEdge = Inr s' \<longrightarrow> in_duty_range s')"
proof (intro conjI impI)
  show "tim3_cc2e fan_control_init" "tim3_ccr2 fan_control_init = 0"
    "output_val fan_control_init = 0"
    using init_pwm by simp_all
  show "\<not> in_duty_range fan_control_init"
    using init_pwm by (simp add: zero_not_in_duty_range)
next
  assume c: "count_list evs TachoEdge < 2"
  have "\<exists>t. exec fan_control_init evs = Inr t \<and> tim3_cc2e t \<and> tim3_ccr2 t = 0 \<and>
          output_val t = 0"
    using init_pwm c by (intro exec_before_first_tick) simp_all
  then show "\<exists>t. exec fan_control_init evs = Inr t \<and> tim3_cc2e t \<and> tim3_ccr2 t = 0 \<and>
           output_val t = 0 \<and> \<not> in_duty_range t"
    using zero_not_in_duty_range by blast
next
  assume a: "count_list evs TachoEdge = 1 \<and> exec fan_control_init evs = Inr s \<and>
    step s TachoEdge = Inr s'"
  then have "(fan_start_flag s = 0) = ((fan_start_flag fan_control_init = 0) = even (1::nat))"
    using exec_flag_parity [of fan_control_init evs s] by simp
  then have m: "fan_start_flag s \<noteq> 0" using init_pwm by simp
  have "EXTI1_IRQHandler s = Inr s'" using a by simp
  with m step_measuring_edge_in_duty_range show "in_duty_range s'" by blast
qed

theorem pwm_zero_until_first_tick_witness:
  "(\<exists>t. exec fan_control_init [TachoEdge, Tim2Clock, MainLoop] = Inr t \<and>
        tim3_ccr2 t = 0 \<and> \<not> in_duty_range t) \<and>
   (\<exists>s s'. exec fan_control_init [TachoEdge, Tim2Clock] = Inr s \<and>
        step s TachoEdge = Inr s' \<and> in_duty_range s')"
proof
  have "count_list [TachoEdge, Tim2Clock, MainLoop] TachoEdge < 2" by simp
  with pwm_zero_until_first_tick [of "[TachoEdge, Tim2Clock, MainLoop]"]
  show "\<exists>t. exec fan_control_init [TachoEdge, Tim2Clock, MainLoop] = Inr t \<and>
        tim3_ccr2 t = 0 \<and> \<not> in_duty_range t"
    by blast
next
  have "\<not> isl (exec fan_control_init ([TachoEdge, Tim2Clock] @ [TachoEdge]))"
    by code_simp
  then obtain s s' where x: "exec fan_control_init [TachoEdge, Tim2Clock] = Inr s"
    and y: "step s TachoEdge = Inr s'"
    unfolding exec_append by (auto split: sum.splits)
  have c: "count_list [TachoEdge, Tim2Clock] TachoEdge = 1" by simp
  from x y c pwm_zero_until_first_tick [of "[TachoEdge, Tim2Clock]" s s']
  have "in_duty_range s'" by blast
  with x y show "\<exists>s s'. exec fan_control_init [TachoEdge, Tim2Clock] = Inr s \<and>
        step s TachoEdge = Inr s' \<and> in_duty_range s'"
    by blast
qed

end
